theory Spec2Isabelle
  imports Main "HOL-Library.AList" "HOL-Library.Sublist"
begin


section \<open>Token records, errors and the object store\<close>

text \<open>
  The file \<^verbatim>\<open>src/auth/token_manager.js\<close> holds two variants of the class
  \<^verbatim>\<open>TokenManager\<close>: a round-robin one (cursor \<^verbatim>\<open>currentTokenIndex\<close>) and a
  sticky-session one (maps \<^verbatim>\<open>sessionBindings\<close> and \<^verbatim>\<open>tokenSessions\<close>). Both keep
  JavaScript objects that are shared between \<^verbatim>\<open>this.tokens\<close>, \<^verbatim>\<open>this.cachedData\<close> and
  the callers, and mutate them in place, so token objects live in an explicit store:
  an address is an object identity, \<open>heap\<close> gives the fields of each object.

  Conventions of the embedding:
  \<^item> an absent (or \<^verbatim>\<open>undefined\<close>/\<^verbatim>\<open>null\<close>) field is \<open>None\<close>; numbers are integers
    (milliseconds for instants, seconds for \<^verbatim>\<open>expires_in\<close>);
  \<^item> \<^verbatim>\<open>Date.now()\<close> is the parameter \<open>now\<close> of an operation, read once per call;
  \<^item> the answer of the OAuth endpoint to the one refresh request an operation may
    send is the parameter \<open>resp\<close>;
  \<^item> the accounts file is \<open>accountsFile\<close>: \<open>None\<close> when it is missing or does not parse to
    an array of token objects, otherwise the array; a write replaces it;
  \<^item> a thrown value is \<open>Inl\<close> of the result; \<^verbatim>\<open>await\<close> is sequential composition;
  \<^item> writing the accounts file succeeds, logging has no effect on the state, and the
    choice of an HTTP proxy for the refresh request is part of what produces \<open>resp\<close>;
  \<^item> a \<^verbatim>\<open>Map\<close> is the list of its entries in insertion order; a loop over its entries
    that deletes the entry it is visiting runs over the entries present at its start.
\<close>

type_synonym addr = nat

record token =
  refresh_token :: string
  access_token :: string
  timestamp :: "int option"
  expires_in :: "int option"
  enable :: "bool option"
  disabledUntil :: "int option"
  quotaExhausted :: "bool option"

record usage =
  requests :: nat
  lastUsed :: "int option"

record req_error =
  statusCode :: "int option"
  message :: "string option"

datatype exn =
    Error string
  | Thrown req_error
  | ReferenceError string

datatype response =
    RefreshOk string "int option"
  | RefreshDenied int string
  | FetchFailed string

record store =
  heap :: "addr \<Rightarrow> token"
  nextAddr :: addr
  tokens :: "addr list"
  cachedData :: "addr list option"
  accountsFile :: "token list option"
  lastLoadTime :: int
  usageStats :: "(string \<times> usage) list"

definition loadInterval :: int where
  "loadInterval = 60000"

text \<open>\<^verbatim>\<open>JSON.parse\<close> creates one new object per array element.\<close>

definition alloc :: "token list \<Rightarrow> 'a store_scheme \<Rightarrow> addr list \<times> 'a store_scheme" where
  "alloc ts s =
     (let n = nextAddr s in
      ([n ..< n + length ts],
       s\<lparr>heap := (\<lambda>a. if n \<le> a \<and> a < n + length ts then ts ! (a - n) else heap s a),
         nextAddr := n + length ts\<rparr>))"

definition loadTokens :: "bool \<Rightarrow> int \<Rightarrow> 'a store_scheme \<Rightarrow> 'a store_scheme" where
  "loadTokens force now s =
     (if \<not> force \<and> now - lastLoadTime s < loadInterval \<and> length (tokens s) > 0 then s
      else case accountsFile s of
        None \<Rightarrow> s\<lparr>tokens := []\<rparr>
      | Some tokenArray \<Rightarrow>
          (case alloc tokenArray s of (as, s1) \<Rightarrow>
             s1\<lparr>cachedData := Some as,
                tokens := filter (\<lambda>a. enable (heap s1 a) \<noteq> Some False) as,
                lastLoadTime := now\<rparr>))"

definition forceReload :: "int \<Rightarrow> 'a store_scheme \<Rightarrow> 'a store_scheme" where
  "forceReload now s = loadTokens True now s"

definition isExpired :: "int \<Rightarrow> token \<Rightarrow> bool" where
  "isExpired now t =
     (case timestamp t of
        None \<Rightarrow> True
      | Some ts \<Rightarrow>
          (case expires_in t of
             None \<Rightarrow> True
           | Some e \<Rightarrow>
               if ts = 0 \<or> e = 0 then True
               else (let expiresAt = ts + e * 1000 in now \<ge> expiresAt - 300000)))"

text \<open>\<^verbatim>\<open>allTokens[index] = memToken\<close> at the first index that \<^verbatim>\<open>findIndex\<close> finds.\<close>

fun replaceFirst :: "('a \<Rightarrow> bool) \<Rightarrow> 'a \<Rightarrow> 'a list \<Rightarrow> 'a list" where
  "replaceFirst P y [] = []"
| "replaceFirst P y (x # xs) = (if P x then y # xs else x # replaceFirst P y xs)"

definition saveToFile :: "'a store_scheme \<Rightarrow> 'a store_scheme" where
  "saveToFile s =
     (case (case cachedData s of
              Some c \<Rightarrow> Some (c, s)
            | None \<Rightarrow> (case accountsFile s of None \<Rightarrow> None | Some data \<Rightarrow> Some (alloc data s))) of
        None \<Rightarrow> s
      | Some (allTokens, s1) \<Rightarrow>
          (let allTokens' =
             foldl (\<lambda>all memToken.
                      replaceFirst (\<lambda>t. refresh_token (heap s1 t) = refresh_token (heap s1 memToken))
                        memToken all)
                   allTokens (tokens s1)
           in s1\<lparr>accountsFile := Some (map (heap s1) allTokens'), cachedData := Some allTokens'\<rparr>))"

definition refreshToken ::
  "int \<Rightarrow> response \<Rightarrow> addr \<Rightarrow> 'a store_scheme \<Rightarrow> exn + 'a store_scheme" where
  "refreshToken now resp a s =
     (case resp of
        RefreshOk acc exp \<Rightarrow>
          Inr (saveToFile
                 (s\<lparr>heap := (heap s)(a := (heap s a)\<lparr>access_token := acc, expires_in := exp,
                                                     timestamp := Some now\<rparr>)\<rparr>))
      | RefreshDenied code msg \<Rightarrow> Inl (Thrown \<lparr>statusCode = Some code, message = Some msg\<rparr>)
      | FetchFailed msg \<Rightarrow> Inl (Error msg))"

definition isTokenDisabledByQuota :: "int \<Rightarrow> token \<Rightarrow> bool" where
  "isTokenDisabledByQuota now t =
     (case disabledUntil t of None \<Rightarrow> False | Some d \<Rightarrow> d \<noteq> 0 \<and> now < d)"

definition recordUsage :: "int \<Rightarrow> token \<Rightarrow> 'a store_scheme \<Rightarrow> 'a store_scheme" where
  "recordUsage now t s =
     (let key = refresh_token t;
          stats = (case map_of (usageStats s) key of
                     None \<Rightarrow> \<lparr>requests = 0, lastUsed = None\<rparr>
                   | Some u \<Rightarrow> u)
      in s\<lparr>usageStats :=
             AList.update key (stats\<lparr>requests := requests stats + 1, lastUsed := Some now\<rparr>)
               (usageStats s)\<rparr>)"

text \<open>The refresh step shared by every acquisition path:
  \<^verbatim>\<open>if (this.isExpired(token)) await this.refreshToken(token)\<close>.\<close>

definition refreshIfExpired ::
  "int \<Rightarrow> response \<Rightarrow> addr \<Rightarrow> 'a store_scheme \<Rightarrow> exn + 'a store_scheme" where
  "refreshIfExpired now resp a s =
     (if isExpired now (heap s a) then refreshToken now resp a s else Inr s)"

text \<open>\<^verbatim>\<open>String.prototype.includes\<close>.\<close>

fun str_includes :: "string \<Rightarrow> string \<Rightarrow> bool" where
  "str_includes [] needle = (needle = [])"
| "str_includes (c # cs) needle = (prefix needle (c # cs) \<or> str_includes cs needle)"

text \<open>\<^verbatim>\<open>error.message && error.message.includes('quota')\<close> and the whole test
  \<^verbatim>\<open>error.statusCode === 429 || (...)\<close>.\<close>

definition messageIndicatesQuota :: "req_error \<Rightarrow> bool" where
  "messageIndicatesQuota error =
     (case message error of None \<Rightarrow> False | Some m \<Rightarrow> m \<noteq> [] \<and> str_includes m ''quota'')"

definition isQuotaError :: "req_error \<Rightarrow> bool" where
  "isQuotaError error = (statusCode error = Some 429 \<or> messageIndicatesQuota error)"

text \<open>\<^verbatim>\<open>new Date()\<close>, \<^verbatim>\<open>setUTCDate(getUTCDate() + 1)\<close>, \<^verbatim>\<open>setUTCHours(0, 0, 0, 0)\<close>,
  \<^verbatim>\<open>getTime()\<close>: the first instant of the next UTC day (a day has 86400000 ms and
  ECMAScript days are \<open>floor (t / msPerDay)\<close>).\<close>

definition tomorrow :: "int \<Rightarrow> int" where
  "tomorrow now = (now div 86400000 + 1) * 86400000"

text \<open>The timer callback of \<^verbatim>\<open>startQuotaResetCheck\<close>, run once at time \<open>now\<close>.\<close>

definition quotaResetDue :: "int \<Rightarrow> token \<Rightarrow> bool" where
  "quotaResetDue now t =
     (case disabledUntil t of None \<Rightarrow> False | Some d \<Rightarrow> d \<noteq> 0 \<and> now \<ge> d)"

definition quotaResetCheck :: "int \<Rightarrow> 'a store_scheme \<Rightarrow> 'a store_scheme" where
  "quotaResetCheck now s =
     (case cachedData s of
        None \<Rightarrow> s
      | Some cd \<Rightarrow>
          (case foldl (\<lambda>(h, restoredCount) a.
                         if quotaResetDue now (h a)
                         then (h(a := (h a)\<lparr>disabledUntil := None, quotaExhausted := None\<rparr>),
                               restoredCount + 1)
                         else (h, restoredCount))
                      (heap s, 0::nat) cd of
             (h', restoredCount) \<Rightarrow>
               if restoredCount > 0 then loadTokens True now (saveToFile (s\<lparr>heap := h'\<rparr>))
               else s\<lparr>heap := h'\<rparr>))"


section \<open>The sticky-session variant\<close>

record binding =
  tokenIndex :: nat
  refreshToken' :: string
  lastAccessTime :: int

record sticky = store +
  sessionBindings :: "(string \<times> binding) list"
  tokenSessions :: "(string \<times> string) list"

text \<open>The two \<^verbatim>\<open>Map\<close>s are association lists in insertion order: \<^verbatim>\<open>get\<close> is
  \<^const>\<open>map_of\<close>, \<^verbatim>\<open>set\<close> is \<^const>\<open>AList.update\<close> (in place for a present key, at
  the end for a new one), \<^verbatim>\<open>delete\<close> is \<^const>\<open>AList.delete\<close>.\<close>

definition SESSION_TIMEOUT :: int where
  "SESSION_TIMEOUT = 30 * 60 * 1000"

definition releaseSession :: "string \<Rightarrow> sticky \<Rightarrow> sticky" where
  "releaseSession sessionId s =
     (case map_of (sessionBindings s) sessionId of
        None \<Rightarrow> s
      | Some b \<Rightarrow>
          s\<lparr>tokenSessions := AList.delete (refreshToken' b) (tokenSessions s),
            sessionBindings := AList.delete sessionId (sessionBindings s)\<rparr>)"

fun findFreeFrom ::
  "int \<Rightarrow> (addr \<Rightarrow> token) \<Rightarrow> (string \<times> string) list \<Rightarrow> nat \<Rightarrow> addr list \<Rightarrow> (nat \<times> addr) option"
where
  "findFreeFrom now h ts i [] = None"
| "findFreeFrom now h ts i (a # as) =
     (if enable (h a) = Some False then findFreeFrom now h ts (Suc i) as
      else if isTokenDisabledByQuota now (h a) then findFreeFrom now h ts (Suc i) as
      else if map_of ts (refresh_token (h a)) = None then Some (i, a)
      else findFreeFrom now h ts (Suc i) as)"

definition findFreeToken :: "int \<Rightarrow> sticky \<Rightarrow> (nat \<times> addr) option" where
  "findFreeToken now s = findFreeFrom now (heap s) (tokenSessions s) 0 (tokens s)"

text \<open>Steps 2 to 4 of \<^verbatim>\<open>getTokenForSession\<close>: take a free token, refresh it if
  needed, bind it to the session, count the use.\<close>

definition assignFreeToken ::
  "int \<Rightarrow> response \<Rightarrow> string \<Rightarrow> sticky \<Rightarrow> (exn + addr) \<times> sticky" where
  "assignFreeToken now resp sessionId s =
     (case findFreeToken now s of
        None \<Rightarrow>
          (Inl (Error ''No available tokens. All tokens are either in use or disabled.''), s)
      | Some (i, a) \<Rightarrow>
          (case refreshIfExpired now resp a s of
             Inl e \<Rightarrow> (Inl e, s)
           | Inr s1 \<Rightarrow>
               (let s2 = s1\<lparr>sessionBindings :=
                               AList.update sessionId
                                 \<lparr>tokenIndex = i, refreshToken' = refresh_token (heap s1 a),
                                  lastAccessTime = now\<rparr>
                                 (sessionBindings s1),
                             tokenSessions :=
                               AList.update (refresh_token (heap s1 a)) sessionId
                                 (tokenSessions s1)\<rparr>
                in (Inr a, recordUsage now (heap s2 a) s2))))"

definition getTokenForSession ::
  "int \<Rightarrow> response \<Rightarrow> string \<Rightarrow> sticky \<Rightarrow> (exn + addr) \<times> sticky" where
  "getTokenForSession now resp sessionId s =
     (if sessionId = [] then (Inl (Error ''Session ID is required''), s)
      else case map_of (sessionBindings s) sessionId of
        None \<Rightarrow> assignFreeToken now resp sessionId s
      | Some b \<Rightarrow>
          (let s1 = s\<lparr>sessionBindings :=
                         AList.update sessionId (b\<lparr>lastAccessTime := now\<rparr>) (sessionBindings s)\<rparr>
           in case find (\<lambda>t. refresh_token (heap s1 t) = refreshToken' b) (tokens s1) of
                Some a \<Rightarrow>
                  if enable (heap s1 a) \<noteq> Some False \<and> \<not> isTokenDisabledByQuota now (heap s1 a)
                  then (case refreshIfExpired now resp a s1 of
                          Inl e \<Rightarrow> (Inl e, s1)
                        | Inr s2 \<Rightarrow> (Inr a, recordUsage now (heap s2 a) s2))
                  else assignFreeToken now resp sessionId (releaseSession sessionId s1)
              | None \<Rightarrow> assignFreeToken now resp sessionId (releaseSession sessionId s1)))"

text \<open>The timer callback of \<^verbatim>\<open>startSessionCleanup\<close>, run once at time \<open>now\<close>.\<close>

definition sessionCleanup :: "int \<Rightarrow> sticky \<Rightarrow> sticky" where
  "sessionCleanup now s =
     foldl (\<lambda>st (sessionId, b).
              if now - lastAccessTime b > SESSION_TIMEOUT then releaseSession sessionId st else st)
           s (sessionBindings s)"

text \<open>\<^verbatim>\<open>const sessionId = this.tokenSessions.get(token.refresh_token);
  if (sessionId) this.releaseSession(sessionId)\<close>.\<close>

definition releaseTokenSession :: "addr \<Rightarrow> sticky \<Rightarrow> sticky" where
  "releaseTokenSession a s =
     (case map_of (tokenSessions s) (refresh_token (heap s a)) of
        None \<Rightarrow> s
      | Some sessionId \<Rightarrow> if sessionId \<noteq> [] then releaseSession sessionId s else s)"

definition disableTokenUntil :: "addr \<Rightarrow> int \<Rightarrow> sticky \<Rightarrow> sticky" where
  "disableTokenUntil a resetTime s =
     releaseTokenSession a
       (saveToFile
          (s\<lparr>heap := (heap s)(a := (heap s a)\<lparr>disabledUntil := Some resetTime,
                                              quotaExhausted := Some True\<rparr>)\<rparr>))"

definition disableToken :: "int \<Rightarrow> addr \<Rightarrow> sticky \<Rightarrow> sticky" where
  "disableToken now a s =
     loadTokens True now
       (releaseTokenSession a
          (saveToFile
             (s\<lparr>heap := (heap s)(a := (heap s a)\<lparr>enable := Some False, disabledUntil := None,
                                                 quotaExhausted := None\<rparr>)\<rparr>)))"

text \<open>\<^verbatim>\<open>if (sessionId) return await this.getTokenForSession(sessionId); throw error\<close>.\<close>

definition reassignOrThrow ::
  "int \<Rightarrow> response \<Rightarrow> req_error \<Rightarrow> string option \<Rightarrow> sticky \<Rightarrow> (exn + addr) \<times> sticky" where
  "reassignOrThrow now resp error sessionId s =
     (case sessionId of
        None \<Rightarrow> (Inl (Thrown error), s)
      | Some sid \<Rightarrow>
          if sid \<noteq> [] then getTokenForSession now resp sid s else (Inl (Thrown error), s))"

definition handleRequestError ::
  "int \<Rightarrow> response \<Rightarrow> req_error \<Rightarrow> addr \<Rightarrow> string option \<Rightarrow> sticky \<Rightarrow> (exn + addr) \<times> sticky"
where
  "handleRequestError now resp error a sessionId s =
     (if isQuotaError error
      then reassignOrThrow now resp error sessionId (disableTokenUntil a (tomorrow now) s)
      else if statusCode error = Some 403
      then reassignOrThrow now resp error sessionId (disableToken now a s)
      else (Inl (Thrown error), s))"

definition disableCurrentToken :: "int \<Rightarrow> addr \<Rightarrow> sticky \<Rightarrow> sticky" where
  "disableCurrentToken now a s =
     (case find (\<lambda>t. access_token (heap s t) = access_token (heap s a)) (tokens s) of
        None \<Rightarrow> s
      | Some found \<Rightarrow> disableToken now found s)"

section \<open>The round-robin variant\<close>

record roundrobin = store +
  currentTokenIndex :: nat

definition rr_disableTokenUntil :: "addr \<Rightarrow> int \<Rightarrow> roundrobin \<Rightarrow> roundrobin" where
  "rr_disableTokenUntil a resetTime s =
     saveToFile
       (s\<lparr>heap := (heap s)(a := (heap s a)\<lparr>disabledUntil := Some resetTime,
                                           quotaExhausted := Some True\<rparr>)\<rparr>)"

definition rr_disableToken :: "int \<Rightarrow> addr \<Rightarrow> roundrobin \<Rightarrow> roundrobin" where
  "rr_disableToken now a s =
     loadTokens True now
       (saveToFile
          (s\<lparr>heap := (heap s)(a := (heap s a)\<lparr>enable := Some False, disabledUntil := None,
                                              quotaExhausted := None\<rparr>)\<rparr>))"

definition availableTokens :: "int \<Rightarrow> 'a store_scheme \<Rightarrow> addr list" where
  "availableTokens now s =
     filter (\<lambda>a. enable (heap s a) \<noteq> Some False \<and> \<not> isTokenDisabledByQuota now (heap s a))
       (tokens s)"

definition getNextToken ::
  "int \<Rightarrow> response \<Rightarrow> roundrobin \<Rightarrow> (exn + addr) \<times> roundrobin" where
  "getNextToken now resp s =
     (let s0 = loadTokens False now s in
      if length (tokens s0) = 0 then (Inl (Error ''No tokens available.''), s0)
      else if length (availableTokens now s0) = 0
      then (Inl (Error ''No enabled tokens available.''), s0)
      else
        (let a = availableTokens now s0 ! (currentTokenIndex s0 mod length (availableTokens now s0));
             s1 = s0\<lparr>currentTokenIndex :=
                       (if currentTokenIndex s0 + 1 > 10000 then 0 else currentTokenIndex s0 + 1)\<rparr>
         in case refreshIfExpired now resp a s1 of
              Inl e \<Rightarrow> (Inl e, s1)
            | Inr s2 \<Rightarrow> (Inr a, recordUsage now (heap s2 a) s2)))"

definition rr_handleRequestError ::
  "int \<Rightarrow> response \<Rightarrow> req_error \<Rightarrow> addr \<Rightarrow> roundrobin \<Rightarrow> (exn + addr) \<times> roundrobin" where
  "rr_handleRequestError now resp error a s =
     (if isQuotaError error then getNextToken now resp (rr_disableTokenUntil a (tomorrow now) s)
      else if statusCode error = Some 403 then getNextToken now resp (rr_disableToken now a s)
      else if statusCode error = Some 400 then getNextToken now resp (rr_disableToken now a s)
      else (Inl (Thrown error), s))"


text \<open>\<^verbatim>\<open>getUsageStats\<close> of the round-robin variant. An ISO date string is represented
  by the instant it prints. The arrow function passed to \<^verbatim>\<open>filter\<close> is
  \<^verbatim>\<open>t => token.enable !== false && !this.isTokenDisabledByQuota(t)\<close>: the only
  identifier its own scope binds is \<^verbatim>\<open>t\<close>; the enclosing method and the module bind no
  \<^verbatim>\<open>token\<close> (the parameter of that name belongs to the \<^verbatim>\<open>forEach\<close> callback above
  it), so the scope handed to it maps \<^verbatim>\<open>t\<close> alone.\<close>

record token_stats =
  index :: nat
  requests' :: nat
  lastUsed' :: "int option"
  enabled' :: bool
  quotaExhausted' :: bool
  disabledUntil' :: "int option"

record usage_stats =
  totalTokens :: nat
  availableTokens' :: nat
  totalRequests :: nat
  tokens' :: "token_stats list"

fun filterE :: "('a \<Rightarrow> exn + bool) \<Rightarrow> 'a list \<Rightarrow> exn + 'a list" where
  "filterE p [] = Inr []"
| "filterE p (x # xs) =
     (case p x of
        Inl e \<Rightarrow> Inl e
      | Inr b \<Rightarrow> (case filterE p xs of Inl e \<Rightarrow> Inl e | Inr ys \<Rightarrow> Inr (if b then x # ys else ys)))"

definition availableFilter ::
  "int \<Rightarrow> (addr \<Rightarrow> token) \<Rightarrow> (string \<rightharpoonup> addr) \<Rightarrow> exn + bool" where
  "availableFilter now h scope =
     (case scope ''token'' of
        None \<Rightarrow> Inl (ReferenceError ''token is not defined'')
      | Some tok \<Rightarrow>
          if enable (h tok) \<noteq> Some False
          then (case scope ''t'' of
                  None \<Rightarrow> Inl (ReferenceError ''t is not defined'')
                | Some t \<Rightarrow> Inr (\<not> isTokenDisabledByQuota now (h t)))
          else Inr False)"

definition tokenStats :: "'a store_scheme \<Rightarrow> nat \<Rightarrow> addr \<Rightarrow> token_stats" where
  "tokenStats s i a =
     (let u = (case map_of (usageStats s) (refresh_token (heap s a)) of
                 None \<Rightarrow> \<lparr>requests = 0, lastUsed = None\<rparr>
               | Some u \<Rightarrow> u)
      in \<lparr>index = i,
          requests' = requests u,
          lastUsed' = (case lastUsed u of None \<Rightarrow> None | Some l \<Rightarrow> if l \<noteq> 0 then Some l else None),
          enabled' = (enable (heap s a) \<noteq> Some False),
          quotaExhausted' = (quotaExhausted (heap s a) = Some True),
          disabledUntil' =
            (case disabledUntil (heap s a) of
               None \<Rightarrow> None
             | Some d \<Rightarrow> if d \<noteq> 0 then Some d else None)\<rparr>)"

definition rr_getUsageStats :: "int \<Rightarrow> roundrobin \<Rightarrow> exn + usage_stats" where
  "rr_getUsageStats now s =
     (let stats = map (\<lambda>(i, a). tokenStats s i a) (enumerate 0 (tokens s)) in
      case filterE (\<lambda>t. availableFilter now (heap s) [''t'' \<mapsto> t]) (tokens s) of
        Inl e \<Rightarrow> Inl e
      | Inr available \<Rightarrow>
          Inr \<lparr>totalTokens = length (tokens s),
               availableTokens' = length available,
               totalRequests = foldl (\<lambda>sum u. sum + requests u) 0 (map snd (usageStats s)),
               tokens' = stats\<rparr>)"

section \<open>Construction, operations and reachable states\<close>

definition emptyToken :: token where
  "emptyToken =
     \<lparr>refresh_token = [], access_token = [], timestamp = None, expires_in = None,
      enable = None, disabledUntil = None, quotaExhausted = None\<rparr>"

text \<open>\<^verbatim>\<open>new TokenManager()\<close> at time \<open>now\<close>, with the accounts file \<open>f\<close> on disk: the
  constructor sets the fields and calls \<^verbatim>\<open>loadTokens()\<close>.\<close>

definition newSticky :: "int \<Rightarrow> token list option \<Rightarrow> sticky" where
  "newSticky now f =
     loadTokens False now
       \<lparr>heap = (\<lambda>a. emptyToken), nextAddr = 0, tokens = [], cachedData = None,
        accountsFile = f, lastLoadTime = 0, usageStats = [],
        sessionBindings = [], tokenSessions = []\<rparr>"

definition newRoundRobin :: "int \<Rightarrow> token list option \<Rightarrow> roundrobin" where
  "newRoundRobin now f =
     loadTokens False now
       \<lparr>heap = (\<lambda>a. emptyToken), nextAddr = 0, tokens = [], cachedData = None,
        accountsFile = f, lastLoadTime = 0, usageStats = [],
        currentTokenIndex = 0\<rparr>"

text \<open>The operations of the sticky-session pool, with the inputs each one reads from
  its environment. \<^verbatim>\<open>getToken()\<close> is \<open>GetTokenForSession\<close> with the temporary
  session id it generates. \<open>ExternalWrite\<close> is not an operation of the pool: it is the
  admin module (or an operator) replacing the accounts file.\<close>

datatype op =
    GetTokenForSession int response string
  | ReleaseSession string
  | HandleRequestError int response req_error addr "string option"
  | DisableToken int addr
  | DisableTokenUntil addr int
  | DisableCurrentToken int addr
  | SessionCleanup int
  | QuotaResetCheck int
  | ForceReload int
  | ExternalWrite "token list option"

fun step :: "op \<Rightarrow> sticky \<Rightarrow> sticky" where
  "step (GetTokenForSession now resp sessionId) s = snd (getTokenForSession now resp sessionId s)"
| "step (ReleaseSession sessionId) s = releaseSession sessionId s"
| "step (HandleRequestError now resp error a sessionId) s =
     snd (handleRequestError now resp error a sessionId s)"
| "step (DisableToken now a) s = disableToken now a s"
| "step (DisableTokenUntil a resetTime) s = disableTokenUntil a resetTime s"
| "step (DisableCurrentToken now a) s = disableCurrentToken now a s"
| "step (SessionCleanup now) s = sessionCleanup now s"
| "step (QuotaResetCheck now) s = quotaResetCheck now s"
| "step (ForceReload now) s = forceReload now s"
| "step (ExternalWrite f) s = s\<lparr>accountsFile := f\<rparr>"

definition run :: "op list \<Rightarrow> sticky \<Rightarrow> sticky" where
  "run ops s = foldl (\<lambda>st x. step x st) s ops"

inductive reachable :: "sticky \<Rightarrow> bool" where
  reach_new: "reachable (newSticky now f)"
| reach_step: "reachable s \<Longrightarrow> reachable (step x s)"

section \<open>Invariants\<close>

text \<open>The two binding maps are inverse to each other, and no session id is empty.\<close>

definition inverse_maps :: "(string \<rightharpoonup> binding) \<Rightarrow> (string \<rightharpoonup> string) \<Rightarrow> bool" where
  "inverse_maps M T \<longleftrightarrow>
     (\<forall>sid b. M sid = Some b \<longrightarrow> sid \<noteq> [] \<and> T (refreshToken' b) = Some sid) \<and>
     (\<forall>rt sid. T rt = Some sid \<longrightarrow> (\<exists>b. M sid = Some b \<and> refreshToken' b = rt))"

definition bindings_ok :: "sticky \<Rightarrow> bool" where
  "bindings_ok s \<longleftrightarrow>
     distinct (map fst (sessionBindings s)) \<and> distinct (map fst (tokenSessions s)) \<and>
     inverse_maps (map_of (sessionBindings s)) (map_of (tokenSessions s))"

text \<open>Every object the pool refers to has been created: its address lies below
  \<open>nextAddr\<close>, so a later \<^verbatim>\<open>JSON.parse\<close> never reuses it.\<close>

definition allocated :: "'a store_scheme \<Rightarrow> bool" where
  "allocated s \<longleftrightarrow>
     (\<forall>a\<in>set (tokens s). a < nextAddr s) \<and>
     (\<forall>cd. cachedData s = Some cd \<longrightarrow> (\<forall>a\<in>set cd. a < nextAddr s))"

text \<open>The token objects of the pool: refresh tokens identify the records of
  \<^verbatim>\<open>cachedData\<close>, every object of \<^verbatim>\<open>this.tokens\<close> is one of them, and the records
  of the accounts file have distinct refresh tokens.\<close>

definition store_ok :: "'a store_scheme \<Rightarrow> bool" where
  "store_ok s \<longleftrightarrow>
     (cachedData s = None \<longrightarrow> tokens s = []) \<and>
     (\<forall>cd. cachedData s = Some cd \<longrightarrow>
        distinct (map (\<lambda>a. refresh_token (heap s a)) cd) \<and> set (tokens s) \<subseteq> set cd \<and>
        (\<forall>a\<in>set cd. a < nextAddr s)) \<and>
     (\<forall>f. accountsFile s = Some f \<longrightarrow> distinct (map refresh_token f))"

text \<open>Two pool states with the same token store (they may differ in bindings and
  usage counters).\<close>

definition same_store :: "'a store_scheme \<Rightarrow> 'b store_scheme \<Rightarrow> bool" where
  "same_store s t \<longleftrightarrow>
     heap s = heap t \<and> nextAddr s = nextAddr t \<and> tokens s = tokens t \<and>
     cachedData s = cachedData t \<and> accountsFile s = accountsFile t"

text \<open>The store after a successful refresh of the object \<open>a\<close>.\<close>

definition refreshed :: "int \<Rightarrow> string \<Rightarrow> int option \<Rightarrow> addr \<Rightarrow> 'a store_scheme \<Rightarrow> 'a store_scheme" where
  "refreshed now acc exp a s =
     saveToFile
       (s\<lparr>heap := (heap s)(a := (heap s a)\<lparr>access_token := acc, expires_in := exp,
                                           timestamp := Some now\<rparr>)\<rparr>)"

text \<open>A token that \<^verbatim>\<open>findFreeToken\<close> accepts: enabled, not cooling down, bound to no
  session.\<close>

definition freeEligible :: "int \<Rightarrow> sticky \<Rightarrow> addr \<Rightarrow> bool" where
  "freeEligible now s a \<longleftrightarrow>
     enable (heap s a) \<noteq> Some False \<and> \<not> isTokenDisabledByQuota now (heap s a) \<and>
     map_of (tokenSessions s) (refresh_token (heap s a)) = None"

text \<open>What the refresh request makes of a token that needs it.\<close>

definition refreshOutcome :: "response \<Rightarrow> addr \<Rightarrow> exn + addr" where
  "refreshOutcome resp a =
     (case resp of
        RefreshOk acc exp \<Rightarrow> Inr a
      | RefreshDenied code msg \<Rightarrow> Inl (Thrown \<lparr>statusCode = Some code, message = Some msg\<rparr>)
      | FetchFailed msg \<Rightarrow> Inl (Error msg))"

text \<open>A property of token records that holds of every record the pool knows: the
  objects of \<^verbatim>\<open>this.tokens\<close> and \<^verbatim>\<open>this.cachedData\<close> and the records on disk.\<close>

definition all_tokens :: "(token \<Rightarrow> bool) \<Rightarrow> 'a store_scheme \<Rightarrow> bool" where
  "all_tokens B s \<longleftrightarrow>
     (\<forall>a\<in>set (tokens s). B (heap s a)) \<and>
     (\<forall>cd. cachedData s = Some cd \<longrightarrow> (\<forall>a\<in>set cd. B (heap s a))) \<and>
     (\<forall>f. accountsFile s = Some f \<longrightarrow> (\<forall>t\<in>set f. B t))"




definition keeps_disable :: "(token \<Rightarrow> bool) \<Rightarrow> bool" where
  "keeps_disable B \<longleftrightarrow>
     (\<forall>t. B t \<longrightarrow> B (t\<lparr>enable := Some False, disabledUntil := None, quotaExhausted := None\<rparr>))"




text \<open>The heap \<open>h\<close> is \<open>h0\<close> with the cooldown cleared on some objects whose cooldown
  had elapsed at \<open>now\<close>.\<close>

definition resetHeap :: "int \<Rightarrow> (addr \<Rightarrow> token) \<Rightarrow> (addr \<Rightarrow> token) \<Rightarrow> bool" where
  "resetHeap now h0 h \<longleftrightarrow>
     (\<forall>x. h x = h0 x \<or>
          (quotaResetDue now (h0 x) \<and> h x = (h0 x)\<lparr>disabledUntil := None, quotaExhausted := None\<rparr>))"

text \<open>Whoever rewrites the accounts file keeps the refresh tokens of its records
  distinct.\<close>

definition uniqueIds :: "token list option \<Rightarrow> bool" where
  "uniqueIds f \<longleftrightarrow> (\<forall>ts. f = Some ts \<longrightarrow> distinct (map refresh_token ts))"

fun fileOk :: "op \<Rightarrow> bool" where
  "fileOk (ExternalWrite f) = uniqueIds f"
| "fileOk x = True"



text \<open>A run of session-less acquisitions, each with its clock reading and refresh
  answer: the credential id each call returns, or the exception it throws.\<close>

fun roundRobinRun :: "(int \<times> response) list \<Rightarrow> roundrobin \<Rightarrow> (exn + string) list" where
  "roundRobinRun [] s = []"
| "roundRobinRun ((now, resp) # es) s =
     (case getNextToken now resp s of
        (Inl e, s') \<Rightarrow> Inl e # roundRobinRun es s'
      | (Inr a, s') \<Rightarrow> Inr (refresh_token (heap s' a)) # roundRobinRun es s')"

text \<open>Throughout such a run the eligible credentials are the same: at every call the
  available tokens, in list order, have the ids \<open>ids\<close>, and the call returns.\<close>

fun stablePool :: "string list \<Rightarrow> (int \<times> response) list \<Rightarrow> roundrobin \<Rightarrow> bool" where
  "stablePool ids [] s = True"
| "stablePool ids ((now, resp) # es) s =
     (map (\<lambda>a. refresh_token (heap (loadTokens False now s) a))
          (availableTokens now (loadTokens False now s)) = ids \<and>
      (case getNextToken now resp s of
         (Inl e, s') \<Rightarrow> False
       | (Inr a, s') \<Rightarrow> stablePool ids es s'))"

section \<open>Sample data\<close>

definition tokA :: token where
  "tokA = \<lparr>refresh_token = ''rt-A'', access_token = ''at-A'', timestamp = Some 1000000,
           expires_in = Some 3600, enable = None, disabledUntil = None,
           quotaExhausted = None\<rparr>"

definition tokB :: token where
  "tokB = \<lparr>refresh_token = ''rt-B'', access_token = ''at-B'', timestamp = Some 1000000,
           expires_in = Some 3600, enable = Some True, disabledUntil = None,
           quotaExhausted = None\<rparr>"

definition err500 :: req_error where
  "err500 = \<lparr>statusCode = Some 500, message = Some ''Internal error''\<rparr>"


text \<open>A pool over two accounts, then with session \<^verbatim>\<open>s1\<close>, then also with \<^verbatim>\<open>s2\<close>.\<close>

definition pool0 :: sticky where
  "pool0 = newSticky 0 (Some [tokA, tokB])"

definition pool1 :: sticky where
  "pool1 = step (GetTokenForSession 2000000 (FetchFailed []) ''s1'') pool0"

definition pool2 :: sticky where
  "pool2 = step (GetTokenForSession 2000000 (FetchFailed []) ''s2'') pool1"


definition pool3 :: sticky where
  "pool3 = step (GetTokenForSession 2500000 (FetchFailed []) ''s2'') pool2"


text \<open>An account whose record carries the placeholder issue time 0 and a long
  lifetime.\<close>

definition tokZ :: token where
  "tokZ = \<lparr>refresh_token = ''rt-Z'', access_token = ''at-Z'', timestamp = Some 0,
           expires_in = Some 2000000000, enable = None, disabledUntil = None,
           quotaExhausted = None\<rparr>"

definition poolZ :: sticky where
  "poolZ = newSticky 0 (Some [tokZ])"







text \<open>Round-robin pools over the two accounts, with the cursor at 0 and at 10000.\<close>

definition rr0 :: roundrobin where
  "rr0 = newRoundRobin 1990000 (Some [tokA, tokB])"

definition rrWrap :: roundrobin where
  "rrWrap = rr0\<lparr>currentTokenIndex := 10000\<rparr>"

definition twoCalls :: "(int \<times> response) list" where
  "twoCalls = [(2000000, FetchFailed []), (2000001, FetchFailed [])]"


section \<open>The store: saving and loading\<close>

lemma replaceFirst_id:
  "distinct (map f xs) \<Longrightarrow> m \<in> set xs \<Longrightarrow> replaceFirst (\<lambda>t. f t = f m) m xs = xs"
proof (induction xs)
  case Nil
  then show ?case by simp
next
  case (Cons x xs)
  show ?case
  proof (cases "f x = f m")
    case True
    with Cons.prems have "m = x" by (auto simp: image_iff)
    with True show ?thesis by simp
  next
    case False
    with Cons show ?thesis by auto
  qed
qed

lemma foldl_replaceFirst_id:
  "distinct (map f xs) \<Longrightarrow> set ms \<subseteq> set xs \<Longrightarrow>
   foldl (\<lambda>all m. replaceFirst (\<lambda>t. f t = f m) m all) xs ms = xs"
  by (induction ms) (simp_all add: replaceFirst_id)

lemma saveToFile_tokens [simp]: "tokens (saveToFile s) = tokens s"
  by (auto simp: saveToFile_def alloc_def Let_def split: option.splits)

lemma saveToFile_cached:
  assumes "store_ok s" "cachedData s = Some cd"
  shows "saveToFile s = s\<lparr>accountsFile := Some (map (heap s) cd), cachedData := Some cd\<rparr>"
proof -
  from assms have d: "distinct (map (\<lambda>a. refresh_token (heap s a)) cd)" and sub: "set (tokens s) \<subseteq> set cd"
    by (simp_all add: store_ok_def)
  have "foldl (\<lambda>all m. replaceFirst (\<lambda>t. refresh_token (heap s t) = refresh_token (heap s m)) m all) cd (tokens s) = cd"
    using foldl_replaceFirst_id [of "\<lambda>a. refresh_token (heap s a)" cd "tokens s"] d sub by simp
  then show ?thesis using assms(2) by (simp add: saveToFile_def)
qed

lemma alloc_nth: "i < length ts \<Longrightarrow> heap (snd (alloc ts s)) (nextAddr s + i) = ts ! i"
  by (simp add: alloc_def Let_def)

lemma alloc_map_heap: "map (heap (snd (alloc ts s))) (fst (alloc ts s)) = ts"
  by (rule nth_equalityI) (simp_all add: alloc_def Let_def)

lemma alloc_old: "a < nextAddr s \<Longrightarrow> heap (snd (alloc ts s)) a = heap s a"
  by (simp add: alloc_def Let_def)

lemma saveToFile_heap_old: "a < nextAddr s \<Longrightarrow> heap (saveToFile s) a = heap s a"
  by (auto simp: saveToFile_def Let_def alloc_old split: option.splits prod.splits)
    (metis alloc_old snd_conv)

lemma alloc_ids:
  assumes "alloc f s = (as, s1)"
  shows "map (\<lambda>a. refresh_token (heap s1 a)) as = map refresh_token f"
proof -
  from assms have as: "as = fst (alloc f s)" and s1: "s1 = snd (alloc f s)" by simp_all
  have m: "map (heap s1) as = f" unfolding as s1 by (rule alloc_map_heap)
  have "map (\<lambda>a. refresh_token (heap s1 a)) as = map refresh_token (map (heap s1) as)"
    by (simp add: comp_def)
  with m show ?thesis by simp
qed

lemma alloc_parts:
  assumes "alloc f s = (as, s1)"
  shows "tokens s1 = tokens s" "cachedData s1 = cachedData s" "accountsFile s1 = accountsFile s"
    "nextAddr s1 = nextAddr s + length f" "as = [nextAddr s ..< nextAddr s + length f]"
    "map (heap s1) as = f" "store.more s1 = store.more s"
    "lastLoadTime s1 = lastLoadTime s" "usageStats s1 = usageStats s"
  using assms by (auto simp: alloc_def Let_def intro: nth_equalityI)

lemma store_ok_saveToFile: "store_ok s \<Longrightarrow> store_ok (saveToFile s)"
proof (cases "cachedData s")
  case None
  assume ok: "store_ok s"
  show ?thesis
  proof (cases "accountsFile s")
    case N: None
    with None ok show ?thesis by (simp add: saveToFile_def)
  next
    case (Some f)
    with ok have d: "distinct (map refresh_token f)" by (simp add: store_ok_def)
    from ok None have t: "tokens s = []" by (simp add: store_ok_def)
    obtain as s1 where a: "alloc f s = (as, s1)" by (cases "alloc f s")
    note p = alloc_parts [OF a]
    have sv: "saveToFile s = s1\<lparr>accountsFile := Some f, cachedData := Some as\<rparr>"
      using None Some a t p(1) p(6) by (simp add: saveToFile_def)
    show ?thesis unfolding sv using d t p(1,4,5) alloc_ids [OF a] by (simp add: store_ok_def)
  qed
next
  case (Some cd)
  assume ok: "store_ok s"
  from ok Some show ?thesis
    by (simp add: saveToFile_cached [OF ok Some] store_ok_def comp_def)
qed

lemma store_ok_loadTokens: "store_ok s \<Longrightarrow> store_ok (loadTokens force now s)"
proof -
  assume ok: "store_ok s"
  show ?thesis
  proof (cases "accountsFile s")
    case None
    with ok show ?thesis by (auto simp: loadTokens_def store_ok_def split: option.splits)
  next
    case (Some f)
    with ok have d: "distinct (map refresh_token f)" by (simp add: store_ok_def)
    obtain as s1 where a: "alloc f s = (as, s1)" by (cases "alloc f s")
    note p = alloc_parts [OF a]
    show ?thesis
    proof (cases "\<not> force \<and> now - lastLoadTime s < loadInterval \<and> length (tokens s) > 0")
      case True
      with ok show ?thesis by (simp add: loadTokens_def)
    next
      case False
      then have "loadTokens force now s = s1\<lparr>cachedData := Some as,
                tokens := filter (\<lambda>a. enable (heap s1 a) \<noteq> Some False) as,
                lastLoadTime := now\<rparr>"
        using Some a by (auto simp: loadTokens_def)
      then show ?thesis using d p(3,4,5) Some alloc_ids [OF a] by (auto simp: store_ok_def)
    qed
  qed
qed

lemma store_ok_heap_upd:
  assumes "store_ok s" "refresh_token t = refresh_token (heap s a)"
  shows "store_ok (s\<lparr>heap := (heap s)(a := t)\<rparr>)"
proof -
  have "(\<lambda>x. refresh_token (((heap s)(a := t)) x)) = (\<lambda>x. refresh_token (heap s x))"
    using assms(2) by auto
  with assms(1) show ?thesis by (simp add: store_ok_def split: option.splits)
qed


section \<open>What the store operations leave alone\<close>

lemma saveToFile_more: "store.more (saveToFile s) = store.more s"
  by (auto simp: saveToFile_def Let_def alloc_def split: option.splits)

lemma loadTokens_more: "store.more (loadTokens force now s) = store.more s"
  by (auto simp: loadTokens_def alloc_def Let_def split: option.splits)

lemma sticky_more_eq:
  fixes s t :: sticky
  assumes "store.more s = store.more t"
  shows "sessionBindings s = sessionBindings t" "tokenSessions s = tokenSessions t"
  using assms by (cases s, cases t, simp)+

lemma bind_saveToFile [simp]:
  fixes s :: sticky
  shows "sessionBindings (saveToFile s) = sessionBindings s" "tokenSessions (saveToFile s) = tokenSessions s"
  by (rule sticky_more_eq [OF saveToFile_more])+

lemma bind_loadTokens [simp]:
  fixes s :: sticky
  shows "sessionBindings (loadTokens force now s) = sessionBindings s"
    "tokenSessions (loadTokens force now s) = tokenSessions s"
  by (rule sticky_more_eq [OF loadTokens_more])+

lemma bind_recordUsage [simp]:
  fixes s :: sticky
  shows "sessionBindings (recordUsage now t s) = sessionBindings s"
    "tokenSessions (recordUsage now t s) = tokenSessions s"
  by (simp_all add: recordUsage_def Let_def)

lemma store_recordUsage [simp]:
  "heap (recordUsage now t s) = heap s" "tokens (recordUsage now t s) = tokens s"
  "cachedData (recordUsage now t s) = cachedData s" "accountsFile (recordUsage now t s) = accountsFile s"
  "nextAddr (recordUsage now t s) = nextAddr s"
  by (simp_all add: recordUsage_def Let_def)

lemma quotaResetCheck_more: "store.more (quotaResetCheck now s) = store.more s"
  by (auto simp: quotaResetCheck_def loadTokens_more saveToFile_more split: option.splits prod.splits)

lemma bind_quotaResetCheck [simp]:
  fixes s :: sticky
  shows "sessionBindings (quotaResetCheck now s) = sessionBindings s"
    "tokenSessions (quotaResetCheck now s) = tokenSessions s"
  by (rule sticky_more_eq [OF quotaResetCheck_more])+

lemma refreshIfExpired_frame:
  fixes s :: sticky
  assumes "refreshIfExpired now resp a s = Inr s'"
  shows "sessionBindings s' = sessionBindings s" "tokenSessions s' = tokenSessions s"
    "tokens s' = tokens s"
  using assms
  by (auto simp: refreshIfExpired_def refreshToken_def split: if_splits response.splits)


section \<open>Allocation\<close>


lemma set_replaceFirst: "set (replaceFirst P y xs) \<subseteq> insert y (set xs)"
  by (induction xs) auto

lemma set_foldl_replaceFirst:
  "set (foldl (\<lambda>all m. replaceFirst (P m) m all) xs ms) \<subseteq> set xs \<union> set ms"
proof (induction ms arbitrary: xs)
  case Nil
  show ?case by simp
next
  case (Cons m ms)
  have "set (foldl (\<lambda>all m. replaceFirst (P m) m all) (replaceFirst (P m) m xs) ms)
        \<subseteq> set (replaceFirst (P m) m xs) \<union> set ms" by (rule Cons.IH)
  with set_replaceFirst [of "P m" m xs] show ?case by auto
qed

lemma saveToFile_nextAddr: "nextAddr s \<le> nextAddr (saveToFile s)"
  by (auto simp: saveToFile_def alloc_def Let_def split: option.splits)



lemma allocated_saveToFile: "allocated s \<Longrightarrow> allocated (saveToFile s)"
proof (cases "cachedData s")
  case None
  assume al: "allocated s"
  show ?thesis
  proof (cases "accountsFile s")
    case N: None
    with None al show ?thesis by (simp add: saveToFile_def)
  next
    case (Some f)
    obtain as s1 where a: "alloc f s = (as, s1)" by (cases "alloc f s")
    note p = alloc_parts [OF a]
    let ?all = "foldl (\<lambda>all m. replaceFirst (\<lambda>t. refresh_token (heap s1 t) = refresh_token (heap s1 m)) m all) as (tokens s)"
    have sub: "set ?all \<subseteq> set as \<union> set (tokens s)"
      by (rule set_foldl_replaceFirst [of "\<lambda>m t. refresh_token (heap s1 t) = refresh_token (heap s1 m)"])
    have sv: "saveToFile s = s1\<lparr>accountsFile := Some (map (heap s1) ?all), cachedData := Some ?all\<rparr>"
      using None Some a p(1) by (simp add: saveToFile_def Let_def)
    have "\<forall>x\<in>set ?all. x < nextAddr s + length f"
    proof
      fix x assume "x \<in> set ?all"
      with sub have "x \<in> set as \<or> x \<in> set (tokens s)" by blast
      then show "x < nextAddr s + length f"
      proof
        assume "x \<in> set as" with p(5) show ?thesis by simp
      next
        assume "x \<in> set (tokens s)"
        with al have "x < nextAddr s" by (simp add: allocated_def)
        then show ?thesis by simp
      qed
    qed
    then show ?thesis unfolding sv using al p(1,4) by (auto simp: allocated_def)
  qed
next
  case (Some cd)
  assume al: "allocated s"
  let ?all = "foldl (\<lambda>all m. replaceFirst (\<lambda>t. refresh_token (heap s t) = refresh_token (heap s m)) m all) cd (tokens s)"
  have sub: "set ?all \<subseteq> set cd \<union> set (tokens s)"
    by (rule set_foldl_replaceFirst [of "\<lambda>m t. refresh_token (heap s t) = refresh_token (heap s m)"])
  have sv: "saveToFile s = s\<lparr>accountsFile := Some (map (heap s) ?all), cachedData := Some ?all\<rparr>"
    using Some by (simp add: saveToFile_def Let_def)
  have "\<forall>x\<in>set ?all. x < nextAddr s" using sub al Some by (auto simp: allocated_def)
  then show ?thesis unfolding sv using al by (auto simp: allocated_def)
qed

lemma allocated_loadTokens: "allocated s \<Longrightarrow> allocated (loadTokens force now s)"
  by (auto simp: loadTokens_def alloc_def Let_def allocated_def split: option.splits)

lemma allocated_heap [simp]: "allocated (s\<lparr>heap := h\<rparr>) = allocated s"
  by (simp add: allocated_def split: option.splits)

lemma allocated_recordUsage [simp]: "allocated (recordUsage now t s) = allocated s"
  by (simp add: allocated_def split: option.splits)

lemma allocated_more_update:
  fixes s :: sticky
  shows "allocated (s\<lparr>sessionBindings := sb\<rparr>) = allocated s"
    "allocated (s\<lparr>tokenSessions := ts\<rparr>) = allocated s"
  by (simp_all add: allocated_def split: option.splits)

lemma refreshIfExpired_heap:
  assumes "refreshIfExpired now resp a s = Inr s'" "x < nextAddr s"
  shows "refresh_token (heap s' x) = refresh_token (heap s x)"
    "enable (heap s' x) = enable (heap s x)"
    "disabledUntil (heap s' x) = disabledUntil (heap s x)"
  using assms
  by (auto simp: refreshIfExpired_def refreshToken_def saveToFile_heap_old
      split: if_splits response.splits)

lemma refreshIfExpired_allocated:
  assumes "refreshIfExpired now resp a s = Inr s'" "allocated s"
  shows "allocated s'"
  using assms
  by (auto simp: refreshIfExpired_def refreshToken_def intro!: allocated_saveToFile
      split: if_splits response.splits)

lemma refreshIfExpired_nextAddr:
  assumes "refreshIfExpired now resp a s = Inr s'"
  shows "nextAddr s \<le> nextAddr s'"
  using assms saveToFile_nextAddr [of "s\<lparr>heap := h\<rparr>" for h]
  by (auto simp: refreshIfExpired_def refreshToken_def 
      split: if_splits response.splits)


section \<open>The binding maps\<close>

lemma inverse_mapsD1:
  "inverse_maps M T \<Longrightarrow> M sid = Some b \<Longrightarrow> sid \<noteq> [] \<and> T (refreshToken' b) = Some sid"
  by (simp add: inverse_maps_def)

lemma inverse_mapsD2:
  "inverse_maps M T \<Longrightarrow> T rt = Some sid \<Longrightarrow> \<exists>b. M sid = Some b \<and> refreshToken' b = rt"
  by (simp add: inverse_maps_def)

lemma inverse_maps_release:
  assumes inv: "inverse_maps M T" and b: "M sid = Some b"
  shows "inverse_maps (M(sid := None)) (T(refreshToken' b := None))"
  unfolding inverse_maps_def
proof (intro conjI allI impI)
  fix sid' b'
  assume "(M(sid := None)) sid' = Some b'"
  then have ne: "sid' \<noteq> sid" and m: "M sid' = Some b'" by (auto split: if_splits)
  from inverse_mapsD1 [OF inv m] show "sid' \<noteq> []" by simp
  from inverse_mapsD1 [OF inv m] inverse_mapsD1 [OF inv b] ne
  show "(T(refreshToken' b := None)) (refreshToken' b') = Some sid'" by auto
next
  fix rt sid'
  assume "(T(refreshToken' b := None)) rt = Some sid'"
  then have ne: "rt \<noteq> refreshToken' b" and t: "T rt = Some sid'" by (auto split: if_splits)
  from inverse_mapsD2 [OF inv t] obtain b' where b': "M sid' = Some b'" "refreshToken' b' = rt"
    by blast
  with ne b have "sid' \<noteq> sid" by auto
  with b' show "\<exists>b. (M(sid := None)) sid' = Some b \<and> refreshToken' b = rt" by simp
qed

lemma inverse_maps_touch:
  assumes inv: "inverse_maps M T" and b: "M sid = Some b"
    and r: "refreshToken' b' = refreshToken' b"
  shows "inverse_maps (M(sid \<mapsto> b')) T"
  unfolding inverse_maps_def
proof (intro conjI allI impI)
  fix sid' c
  assume a: "(M(sid \<mapsto> b')) sid' = Some c"
  show "sid' \<noteq> []"
    using a inverse_mapsD1 [OF inv b] inverse_mapsD1 [OF inv, of sid' c]
    by (auto split: if_splits)
  show "T (refreshToken' c) = Some sid'"
    using a r inverse_mapsD1 [OF inv b] inverse_mapsD1 [OF inv, of sid' c]
    by (auto split: if_splits)
next
  fix rt sid'
  assume t: "T rt = Some sid'"
  from inverse_mapsD2 [OF inv t] obtain c where c: "M sid' = Some c" "refreshToken' c = rt"
    by blast
  show "\<exists>b. (M(sid \<mapsto> b')) sid' = Some b \<and> refreshToken' b = rt"
    using c b r by auto
qed

lemma inverse_maps_bind:
  assumes inv: "inverse_maps M T" and m: "M sid = None" and ne: "sid \<noteq> []"
    and t: "T r = None" and b: "refreshToken' b = r"
  shows "inverse_maps (M(sid \<mapsto> b)) (T(r \<mapsto> sid))"
  unfolding inverse_maps_def
proof (intro conjI allI impI)
  fix sid' c
  assume a: "(M(sid \<mapsto> b)) sid' = Some c"
  show "sid' \<noteq> []"
    using a ne inverse_mapsD1 [OF inv, of sid' c] by (auto split: if_splits)
  show "(T(r \<mapsto> sid)) (refreshToken' c) = Some sid'"
    using a b t inverse_mapsD1 [OF inv, of sid' c] by (auto split: if_splits)
next
  fix rt sid'
  assume a: "(T(r \<mapsto> sid)) rt = Some sid'"
  show "\<exists>c. (M(sid \<mapsto> b)) sid' = Some c \<and> refreshToken' c = rt"
  proof (cases "rt = r")
    case True
    with a b show ?thesis by simp
  next
    case False
    with a have "T rt = Some sid'" by simp
    from inverse_mapsD2 [OF inv this] obtain c where c: "M sid' = Some c" "refreshToken' c = rt"
      by blast
    with m have "sid' \<noteq> sid" by auto
    with c show ?thesis by simp
  qed
qed

lemma bindings_ok_cong:
  "sessionBindings s' = sessionBindings s \<Longrightarrow> tokenSessions s' = tokenSessions s \<Longrightarrow>
   bindings_ok s' = bindings_ok s"
  by (simp add: bindings_ok_def)

lemma bindings_ok_releaseSession: "bindings_ok s \<Longrightarrow> bindings_ok (releaseSession sid s)"
proof (cases "map_of (sessionBindings s) sid")
  case None
  assume "bindings_ok s"
  with None show ?thesis by (simp add: releaseSession_def)
next
  case (Some b)
  assume ok: "bindings_ok s"
  then have "inverse_maps (map_of (sessionBindings s)) (map_of (tokenSessions s))"
    by (simp add: bindings_ok_def)
  from inverse_maps_release [OF this Some] ok Some show ?thesis
    by (simp add: releaseSession_def bindings_ok_def distinct_delete delete_conv'
        del: map_of_eq_Some_iff)
qed

lemma bindings_ok_touch:
  assumes ok: "bindings_ok s" and b: "map_of (sessionBindings s) sid = Some b"
  shows "bindings_ok (s\<lparr>sessionBindings :=
            AList.update sid (b\<lparr>lastAccessTime := now\<rparr>) (sessionBindings s)\<rparr>)"
proof -
  from ok have "inverse_maps (map_of (sessionBindings s)) (map_of (tokenSessions s))"
    by (simp add: bindings_ok_def)
  from inverse_maps_touch [OF this b, of "b\<lparr>lastAccessTime := now\<rparr>"] ok show ?thesis
    by (simp add: bindings_ok_def distinct_update update_conv' del: map_of_eq_Some_iff)
qed

lemma bindings_ok_bind:
  assumes ok: "bindings_ok s" and m: "map_of (sessionBindings s) sid = None" and ne: "sid \<noteq> []"
    and t: "map_of (tokenSessions s) r = None"
  shows "bindings_ok (s\<lparr>sessionBindings :=
            AList.update sid \<lparr>tokenIndex = i, refreshToken' = r, lastAccessTime = now\<rparr>
              (sessionBindings s),
          tokenSessions := AList.update r sid (tokenSessions s)\<rparr>)"
proof -
  from ok have "inverse_maps (map_of (sessionBindings s)) (map_of (tokenSessions s))"
    by (simp add: bindings_ok_def)
  from inverse_maps_bind [OF this m ne t, of "\<lparr>tokenIndex = i, refreshToken' = r, lastAccessTime = now\<rparr>"] ok
  show ?thesis
    by (simp add: bindings_ok_def distinct_update update_conv' del: map_of_eq_Some_iff)
qed


section \<open>Acquiring keeps the invariants\<close>

lemma allocated_cong:
  "nextAddr s' = nextAddr s \<Longrightarrow> tokens s' = tokens s \<Longrightarrow> cachedData s' = cachedData s \<Longrightarrow>
   allocated s' = allocated s"
  by (simp add: allocated_def)

lemma store_ok_cong:
  "heap s' = heap s \<Longrightarrow> nextAddr s' = nextAddr s \<Longrightarrow> tokens s' = tokens s \<Longrightarrow>
   cachedData s' = cachedData s \<Longrightarrow> accountsFile s' = accountsFile s \<Longrightarrow>
   store_ok s' = store_ok s"
  by (simp add: store_ok_def)

lemma releaseSession_store [simp]:
  "heap (releaseSession sid s) = heap s" "nextAddr (releaseSession sid s) = nextAddr s"
  "tokens (releaseSession sid s) = tokens s" "cachedData (releaseSession sid s) = cachedData s"
  "accountsFile (releaseSession sid s) = accountsFile s"
  by (simp_all add: releaseSession_def split: option.splits)

lemma allocated_releaseSession [simp]: "allocated (releaseSession sid s) = allocated s"
  by (rule allocated_cong) simp_all

lemma store_ok_releaseSession [simp]: "store_ok (releaseSession sid s) = store_ok s"
  by (rule store_ok_cong) simp_all

lemma bindings_ok_store [simp]:
  "bindings_ok (recordUsage now t s) = bindings_ok s"
  "bindings_ok (saveToFile s) = bindings_ok s"
  "bindings_ok (loadTokens force now s) = bindings_ok s"
  "bindings_ok (quotaResetCheck now s) = bindings_ok s"
  "bindings_ok (s\<lparr>heap := h\<rparr>) = bindings_ok s"
  "bindings_ok (s\<lparr>accountsFile := f\<rparr>) = bindings_ok s"
  by (simp_all add: bindings_ok_def)

lemma findFreeFrom_Some:
  "findFreeFrom now h ts i as = Some (j, a) \<Longrightarrow>
     a \<in> set as \<and> enable (h a) \<noteq> Some False \<and> \<not> isTokenDisabledByQuota now (h a) \<and>
     map_of ts (refresh_token (h a)) = None"
  by (induction as arbitrary: i) (auto split: if_splits)

lemma findFreeToken_Some:
  "findFreeToken now s = Some (j, a) \<Longrightarrow> a \<in> set (tokens s) \<and> freeEligible now s a"
  unfolding findFreeToken_def freeEligible_def by (drule findFreeFrom_Some) simp

lemma assignFreeToken_inv:
  assumes ok: "bindings_ok s" and al: "allocated s"
    and m: "map_of (sessionBindings s) sid = None" and ne: "sid \<noteq> []"
  shows "bindings_ok (snd (assignFreeToken now resp sid s)) \<and>
         allocated (snd (assignFreeToken now resp sid s))"
proof (cases "findFreeToken now s")
  case None
  with assms show ?thesis by (simp add: assignFreeToken_def)
next
  case (Some p)
  obtain i a where p: "p = (i, a)" by (cases p)
  from findFreeToken_Some [OF Some [unfolded p]]
  have a: "a \<in> set (tokens s)" and free: "map_of (tokenSessions s) (refresh_token (heap s a)) = None"
    by (simp_all add: freeEligible_def)
  from a al have lt: "a < nextAddr s" by (simp add: allocated_def)
  show ?thesis
  proof (cases "refreshIfExpired now resp a s")
    case (Inl e)
    with Some p assms show ?thesis by (simp add: assignFreeToken_def)
  next
    case (Inr s1)
    note fr = refreshIfExpired_frame [OF Inr]
    have ok1: "bindings_ok s1" using ok fr bindings_ok_cong [of s1 s] by simp
    have al1: "allocated s1" by (rule refreshIfExpired_allocated [OF Inr al])
    have rt: "refresh_token (heap s1 a) = refresh_token (heap s a)"
      by (rule refreshIfExpired_heap [OF Inr lt])
    have m1: "map_of (sessionBindings s1) sid = None" using m fr by simp
    have t1: "map_of (tokenSessions s1) (refresh_token (heap s1 a)) = None" using free fr rt by simp
    let ?s2 = "s1\<lparr>sessionBindings :=
                   AList.update sid \<lparr>tokenIndex = i, refreshToken' = refresh_token (heap s1 a),
                      lastAccessTime = now\<rparr> (sessionBindings s1),
                 tokenSessions := AList.update (refresh_token (heap s1 a)) sid (tokenSessions s1)\<rparr>"
    have ok2: "bindings_ok ?s2" by (rule bindings_ok_bind [OF ok1 m1 ne t1])
    have al2: "allocated ?s2" using al1 by (simp add: allocated_def)
    have res: "snd (assignFreeToken now resp sid s) = recordUsage now (heap ?s2 a) ?s2"
      using Some p Inr by (simp add: assignFreeToken_def Let_def)
    show ?thesis unfolding res using ok2 al2 by simp
  qed
qed

lemma map_of_delete_self [simp]: "map_of (AList.delete k al) k = None"
  by (simp add: delete_conv')

lemma releaseSession_unbinds [simp]: "map_of (sessionBindings (releaseSession sid s)) sid = None"
  by (simp add: releaseSession_def split: option.splits)

lemma getTokenForSession_inv:
  assumes ok: "bindings_ok s" and al: "allocated s"
  shows "bindings_ok (snd (getTokenForSession now resp sid s)) \<and>
         allocated (snd (getTokenForSession now resp sid s))"
proof (cases "sid = []")
  case True
  with assms show ?thesis by (simp add: getTokenForSession_def)
next
  case ne: False
  show ?thesis
  proof (cases "map_of (sessionBindings s) sid")
    case None
    with ne assignFreeToken_inv [OF ok al None ne] show ?thesis
      by (simp add: getTokenForSession_def)
  next
    case (Some b)
    let ?s1 = "s\<lparr>sessionBindings :=
                  AList.update sid (b\<lparr>lastAccessTime := now\<rparr>) (sessionBindings s)\<rparr>"
    have ok1: "bindings_ok ?s1" by (rule bindings_ok_touch [OF ok Some])
    have al1: "allocated ?s1" using al by (simp add: allocated_def)
    have rel: "bindings_ok (snd (assignFreeToken now resp sid (releaseSession sid ?s1))) \<and>
               allocated (snd (assignFreeToken now resp sid (releaseSession sid ?s1)))"
      by (rule assignFreeToken_inv) (simp_all add: bindings_ok_releaseSession ok1 al1 ne)
    show ?thesis
    proof (cases "find (\<lambda>t. refresh_token (heap ?s1 t) = refreshToken' b) (tokens ?s1)")
      case N: None
      with Some ne rel show ?thesis by (simp add: getTokenForSession_def Let_def)
    next
      case F: (Some a)
      show ?thesis
      proof (cases "enable (heap ?s1 a) \<noteq> Some False \<and> \<not> isTokenDisabledByQuota now (heap ?s1 a)")
        case False
        with Some ne rel F show ?thesis by (auto simp: getTokenForSession_def Let_def)
      next
        case True
        show ?thesis
        proof (cases "refreshIfExpired now resp a ?s1")
          case (Inl e)
          with Some ne F True ok1 al1 show ?thesis by (simp add: getTokenForSession_def Let_def)
        next
          case (Inr s2)
          note fr = refreshIfExpired_frame [OF Inr]
          have ok2: "bindings_ok s2" using ok1 fr bindings_ok_cong [of s2 ?s1] by simp
          have al2: "allocated s2" by (rule refreshIfExpired_allocated [OF Inr al1])
          have res: "snd (getTokenForSession now resp sid s) = recordUsage now (heap s2 a) s2"
            using Some ne F True Inr by (simp add: getTokenForSession_def Let_def)
          show ?thesis unfolding res using ok2 al2 by simp
        qed
      qed
    qed
  qed
qed


section \<open>Every operation keeps the invariants\<close>

lemma sessionCleanup_fold_inv:
  "bindings_ok st \<Longrightarrow> allocated st \<Longrightarrow>
   bindings_ok (foldl (\<lambda>st (sessionId, b).
              if now - lastAccessTime b > SESSION_TIMEOUT then releaseSession sessionId st else st) st xs)
   \<and> allocated (foldl (\<lambda>st (sessionId, b).
              if now - lastAccessTime b > SESSION_TIMEOUT then releaseSession sessionId st else st) st xs)"
  by (induction xs arbitrary: st) (auto simp: bindings_ok_releaseSession)

lemma sessionCleanup_inv:
  "bindings_ok s \<Longrightarrow> allocated s \<Longrightarrow>
   bindings_ok (sessionCleanup now s) \<and> allocated (sessionCleanup now s)"
  unfolding sessionCleanup_def by (rule sessionCleanup_fold_inv)

lemma releaseTokenSession_inv:
  "bindings_ok s \<Longrightarrow> bindings_ok (releaseTokenSession a s)"
  "allocated (releaseTokenSession a s) = allocated s"
  by (auto simp: releaseTokenSession_def bindings_ok_releaseSession split: option.splits)

lemma disableTokenUntil_inv:
  assumes "bindings_ok s" "allocated s"
  shows "bindings_ok (disableTokenUntil a t s) \<and> allocated (disableTokenUntil a t s)"
  using assms
  by (simp add: disableTokenUntil_def releaseTokenSession_inv allocated_saveToFile)

lemma disableToken_inv:
  assumes "bindings_ok s" "allocated s"
  shows "bindings_ok (disableToken now a s) \<and> allocated (disableToken now a s)"
  using assms
  by (simp add: disableToken_def releaseTokenSession_inv allocated_saveToFile allocated_loadTokens)

lemma reassignOrThrow_inv:
  assumes "bindings_ok s" "allocated s"
  shows "bindings_ok (snd (reassignOrThrow now resp error sid s)) \<and>
         allocated (snd (reassignOrThrow now resp error sid s))"
  using assms getTokenForSession_inv [OF assms]
  by (simp add: reassignOrThrow_def split: option.splits)

lemma handleRequestError_inv:
  assumes "bindings_ok s" "allocated s"
  shows "bindings_ok (snd (handleRequestError now resp error a sid s)) \<and>
         allocated (snd (handleRequestError now resp error a sid s))"
  using assms reassignOrThrow_inv disableTokenUntil_inv [OF assms] disableToken_inv [OF assms]
  by (simp add: handleRequestError_def)

lemma disableCurrentToken_inv:
  assumes "bindings_ok s" "allocated s"
  shows "bindings_ok (disableCurrentToken now a s) \<and> allocated (disableCurrentToken now a s)"
  using assms disableToken_inv [OF assms]
  by (simp add: disableCurrentToken_def split: option.splits)

lemma allocated_quotaResetCheck: "allocated s \<Longrightarrow> allocated (quotaResetCheck now s)"
  by (auto simp: quotaResetCheck_def allocated_saveToFile allocated_loadTokens
      split: option.splits prod.splits)

lemma allocated_new: "allocated (newSticky now f)"
  unfolding newSticky_def by (rule allocated_loadTokens) (simp add: allocated_def)

lemma bindings_ok_new: "bindings_ok (newSticky now f)"
  by (simp add: newSticky_def) (simp add: bindings_ok_def inverse_maps_def)

lemma step_inv:
  assumes "bindings_ok s" "allocated s"
  shows "bindings_ok (step x s) \<and> allocated (step x s)"
proof (cases x)
  case (GetTokenForSession now resp sid)
  then show ?thesis using getTokenForSession_inv [OF assms] by simp
next
  case (ReleaseSession sid)
  then show ?thesis using assms by (simp add: bindings_ok_releaseSession)
next
  case (HandleRequestError now resp error a sid)
  then show ?thesis using handleRequestError_inv [OF assms] by simp
next
  case (DisableToken now a)
  then show ?thesis using disableToken_inv [OF assms] by simp
next
  case (DisableTokenUntil a t)
  then show ?thesis using disableTokenUntil_inv [OF assms] by simp
next
  case (DisableCurrentToken now a)
  then show ?thesis using disableCurrentToken_inv [OF assms] by simp
next
  case (SessionCleanup now)
  then show ?thesis using sessionCleanup_inv [OF assms] by simp
next
  case (QuotaResetCheck now)
  then show ?thesis using assms by (simp add: allocated_quotaResetCheck)
next
  case (ForceReload now)
  then show ?thesis using assms by (simp add: forceReload_def allocated_loadTokens)
next
  case (ExternalWrite f)
  then show ?thesis using assms by (simp add: allocated_def)
qed

text \<open>The binding maps are inverse to each other and every object is allocated in
  every state the sticky-session pool reaches, whatever the accounts file holds.\<close>

lemma reachable_inv: "reachable s \<Longrightarrow> bindings_ok s \<and> allocated s"
  by (induction rule: reachable.induct) (simp_all add: allocated_new bindings_ok_new step_inv)


section \<open>The idle sweep\<close>

lemma delete_append: "AList.delete k (xs @ ys) = AList.delete k xs @ AList.delete k ys"
  by (simp add: AList.delete_eq)

lemma delete_middle:
  assumes "distinct (map fst (pre @ (k, v) # xs))"
  shows "AList.delete k (pre @ (k, v) # xs) = pre @ xs"
proof -
  from assms have "k \<notin> fst ` set pre" "k \<notin> fst ` set xs" by auto
  then show ?thesis by (simp add: delete_append)
qed

lemma map_of_middle:
  assumes "distinct (map fst (pre @ (k, v) # xs))"
  shows "map_of (pre @ (k, v) # xs) k = Some v"
  using assms by (intro map_of_is_SomeI) simp_all

lemma sessionCleanup_fold_bindings:
  assumes "sessionBindings st = pre @ xs" "distinct (map fst (pre @ xs))"
  shows "sessionBindings
           (foldl (\<lambda>st (sessionId, b).
                     if now - lastAccessTime b > SESSION_TIMEOUT then releaseSession sessionId st
                     else st) st xs)
         = pre @ filter (\<lambda>(sid, b). \<not> now - lastAccessTime b > SESSION_TIMEOUT) xs"
  using assms
proof (induction xs arbitrary: st pre)
  case Nil
  then show ?case by simp
next
  case (Cons x xs)
  obtain sid b where x: "x = (sid, b)" by (cases x)
  show ?case
  proof (cases "now - lastAccessTime b > SESSION_TIMEOUT")
    case True
    from Cons.prems x have dd: "distinct (map fst (pre @ (sid, b) # xs))"
      and eq: "sessionBindings st = pre @ (sid, b) # xs" by simp_all
    have m: "map_of (sessionBindings st) sid = Some b"
      unfolding eq by (rule map_of_middle [OF dd])
    have d: "AList.delete sid (sessionBindings st) = pre @ xs"
      unfolding eq by (rule delete_middle [OF dd])
    have sb: "sessionBindings (releaseSession sid st) = pre @ xs"
      using m d by (simp add: releaseSession_def)
    from Cons.prems have dist: "distinct (map fst (pre @ xs))" by auto
    from Cons.IH [OF sb dist] True x show ?thesis by simp
  next
    case False
    from Cons.prems x have sb: "sessionBindings st = (pre @ [(sid, b)]) @ xs" by simp
    from Cons.prems x have dist: "distinct (map fst ((pre @ [(sid, b)]) @ xs))" by simp
    from Cons.IH [OF sb dist] False x show ?thesis by simp
  qed
qed

lemma sessionCleanup_bindings:
  assumes "distinct (map fst (sessionBindings s))"
  shows "sessionBindings (sessionCleanup now s) =
     filter (\<lambda>(sid, b). \<not> now - lastAccessTime b > SESSION_TIMEOUT) (sessionBindings s)"
  using sessionCleanup_fold_bindings [of s "[]" "sessionBindings s" now] assms
  by (simp add: sessionCleanup_def)

lemma map_of_filter_snd:
  "distinct (map fst xs) \<Longrightarrow>
   map_of (filter (\<lambda>(k, v). P v) xs) k =
     (case map_of xs k of None \<Rightarrow> None | Some v \<Rightarrow> if P v then Some v else None)"
proof (induction xs)
  case Nil
  then show ?case by simp
next
  case (Cons x xs)
  obtain k' v' where x: "x = (k', v')" by (cases x)
  from Cons.prems x have nk: "map_of xs k' = None" by (simp add: map_of_eq_None_iff)
  from Cons x nk show ?case by (auto split: option.splits)
qed


lemma bindings_ok_sessionCleanup_fold:
  "bindings_ok st \<Longrightarrow>
   bindings_ok (foldl (\<lambda>st (sessionId, b).
              if now - lastAccessTime b > SESSION_TIMEOUT then releaseSession sessionId st else st)
            st xs)"
  by (induction xs arbitrary: st) (auto simp: bindings_ok_releaseSession)

lemma bindings_ok_sessionCleanup: "bindings_ok s \<Longrightarrow> bindings_ok (sessionCleanup now s)"
  unfolding sessionCleanup_def by (rule bindings_ok_sessionCleanup_fold)


section \<open>What an acquisition returns\<close>

lemma refreshIfExpired_result:
  assumes "refreshIfExpired now resp a s = Inr s'" "a < nextAddr s"
  shows "heap s' a =
     (if isExpired now (heap s a)
      then (case resp of
              RefreshOk acc exp \<Rightarrow>
                (heap s a)\<lparr>access_token := acc, expires_in := exp, timestamp := Some now\<rparr>
            | _ \<Rightarrow> heap s a)
      else heap s a)"
    and "isExpired now (heap s a) \<Longrightarrow> \<exists>acc exp. resp = RefreshOk acc exp"
  using assms
  by (auto simp: refreshIfExpired_def refreshToken_def saveToFile_heap_old
      split: if_splits response.splits)

lemma refreshIfExpired_Inl:
  "refreshIfExpired now resp a s = Inl e \<Longrightarrow>
   (if isExpired now (heap s a) then refreshOutcome resp a else Inr a) = Inl e"
  by (auto simp: refreshIfExpired_def refreshToken_def refreshOutcome_def
      split: response.splits if_splits)

lemma refreshIfExpired_Inr:
  "refreshIfExpired now resp a s = Inr s' \<Longrightarrow>
   (if isExpired now (heap s a) then refreshOutcome resp a else Inr a) = Inr a"
  by (auto simp: refreshIfExpired_def refreshToken_def refreshOutcome_def
      split: response.splits if_splits)

lemma getTokenForSession_bound:
  assumes ne: "sid \<noteq> []" and b: "map_of (sessionBindings s) sid = Some b"
    and f: "find (\<lambda>t. refresh_token (heap s t) = refreshToken' b) (tokens s) = Some a"
    and en: "enable (heap s a) \<noteq> Some False" and q: "\<not> isTokenDisabledByQuota now (heap s a)"
  shows "getTokenForSession now resp sid s =
     (let s1 = s\<lparr>sessionBindings :=
                   AList.update sid (b\<lparr>lastAccessTime := now\<rparr>) (sessionBindings s)\<rparr>
      in case refreshIfExpired now resp a s1 of
           Inl e \<Rightarrow> (Inl e, s1)
         | Inr s2 \<Rightarrow> (Inr a, recordUsage now (heap s2 a) s2))"
  using assms by (simp add: getTokenForSession_def Let_def)

lemma find_Some_set: "find P xs = Some a \<Longrightarrow> a \<in> set xs \<and> P a"
  by (auto simp: find_Some_iff)


section \<open>What an acquisition does to the store\<close>

lemma same_store_refl [simp]: "same_store s s"
  by (simp add: same_store_def)

lemma same_store_sym: "same_store s t \<Longrightarrow> same_store t s"
  by (simp add: same_store_def)

lemma same_store_trans: "same_store s t \<Longrightarrow> same_store t u \<Longrightarrow> same_store s u"
  by (simp add: same_store_def)

lemma same_store_simps [simp]:
  "same_store (recordUsage now t s) u = same_store s u"
  "same_store (releaseSession sid (s :: sticky)) u = same_store s u"
  "same_store ((s :: sticky)\<lparr>sessionBindings := sb\<rparr>) u = same_store s u"
  "same_store ((s :: sticky)\<lparr>tokenSessions := ts\<rparr>) u = same_store s u"
  by (simp_all add: same_store_def)

lemma same_store_saveToFile:
  assumes "same_store s t"
  shows "same_store (saveToFile s) (saveToFile t)"
  using assms
  by (auto simp: same_store_def saveToFile_def alloc_def Let_def split: option.splits)

lemma same_store_heap_upd:
  "same_store s t \<Longrightarrow> same_store (s\<lparr>heap := h\<rparr>) (t\<lparr>heap := h\<rparr>)"
  by (simp add: same_store_def)

lemma same_store_refreshed:
  assumes "same_store s t"
  shows "same_store (refreshed now acc exp a s) (refreshed now acc exp a t)"
proof -
  from assms have "heap s = heap t" by (simp add: same_store_def)
  then show ?thesis
    unfolding refreshed_def
    using same_store_saveToFile [OF same_store_heap_upd [OF assms]] by simp
qed

lemma refreshIfExpired_cases:
  assumes "refreshIfExpired now resp a s = Inr s'"
  shows "s' = s \<or> (\<exists>acc exp. resp = RefreshOk acc exp \<and> s' = refreshed now acc exp a s)"
  using assms
  by (auto simp: refreshIfExpired_def refreshToken_def refreshed_def
      split: if_splits response.splits)

text \<open>The store after an acquisition: untouched, or one token of the list refreshed.\<close>

lemma assignFreeToken_store:
  "same_store (snd (assignFreeToken now resp sid s)) s \<or>
   (\<exists>a acc exp. a \<in> set (tokens s) \<and>
      same_store (snd (assignFreeToken now resp sid s)) (refreshed now acc exp a s))"
proof (cases "findFreeToken now s")
  case None
  then show ?thesis by (simp add: assignFreeToken_def)
next
  case (Some p)
  obtain i a where p: "p = (i, a)" by (cases p)
  from findFreeToken_Some [OF Some [unfolded p]] have a: "a \<in> set (tokens s)" by simp
  show ?thesis
  proof (cases "refreshIfExpired now resp a s")
    case (Inl e)
    with Some p show ?thesis by (simp add: assignFreeToken_def)
  next
    case (Inr s1)
    have "same_store (snd (assignFreeToken now resp sid s)) s1"
      using Some p Inr by (simp add: assignFreeToken_def Let_def)
    with refreshIfExpired_cases [OF Inr] a show ?thesis by auto
  qed
qed

lemma getTokenForSession_store:
  "same_store (snd (getTokenForSession now resp sid s)) s \<or>
   (\<exists>a acc exp. a \<in> set (tokens s) \<and>
      same_store (snd (getTokenForSession now resp sid s)) (refreshed now acc exp a s))"
proof (cases "sid = []")
  case True
  then show ?thesis by (simp add: getTokenForSession_def)
next
  case ne: False
  show ?thesis
  proof (cases "map_of (sessionBindings s) sid")
    case None
    with ne assignFreeToken_store [of now resp sid s] show ?thesis
      by (simp add: getTokenForSession_def)
  next
    case (Some b)
    let ?s1 = "s\<lparr>sessionBindings :=
                  AList.update sid (b\<lparr>lastAccessTime := now\<rparr>) (sessionBindings s)\<rparr>"
    have ss: "same_store (releaseSession sid ?s1) s" by simp
    have t1: "tokens (releaseSession sid ?s1) = tokens s" by simp
    let ?r = "releaseSession sid ?s1"
    have rel: "same_store (snd (assignFreeToken now resp sid ?r)) s \<or>
      (\<exists>a acc exp. a \<in> set (tokens s) \<and>
        same_store (snd (assignFreeToken now resp sid ?r)) (refreshed now acc exp a s))"
      using assignFreeToken_store [of now resp sid ?r]
    proof
      assume "same_store (snd (assignFreeToken now resp sid ?r)) ?r"
      from same_store_trans [OF this ss] show ?thesis by simp
    next
      assume "\<exists>a acc exp. a \<in> set (tokens ?r) \<and>
        same_store (snd (assignFreeToken now resp sid ?r)) (refreshed now acc exp a ?r)"
      then obtain a acc exp where a: "a \<in> set (tokens ?r)"
        and st: "same_store (snd (assignFreeToken now resp sid ?r)) (refreshed now acc exp a ?r)"
        by blast
      from same_store_trans [OF st same_store_refreshed [OF ss]] a t1 show ?thesis by auto
    qed
    show ?thesis
    proof (cases "find (\<lambda>t. refresh_token (heap ?s1 t) = refreshToken' b) (tokens ?s1)")
      case N: None
      with Some ne rel show ?thesis by (simp add: getTokenForSession_def Let_def)
    next
      case F: (Some a)
      from find_Some_set [OF F] have a: "a \<in> set (tokens s)" by simp
      show ?thesis
      proof (cases "enable (heap ?s1 a) \<noteq> Some False \<and> \<not> isTokenDisabledByQuota now (heap ?s1 a)")
        case False
        with Some ne F have "getTokenForSession now resp sid s = assignFreeToken now resp sid ?r"
          by (auto simp: getTokenForSession_def Let_def)
        with rel show ?thesis by simp
      next
        case True
        show ?thesis
        proof (cases "refreshIfExpired now resp a ?s1")
          case (Inl e)
          with Some ne F True show ?thesis by (simp add: getTokenForSession_def Let_def)
        next
          case (Inr s2)
          have res: "snd (getTokenForSession now resp sid s) = recordUsage now (heap s2 a) s2"
            using Some ne F True Inr by (simp add: getTokenForSession_def Let_def)
          have s1s: "same_store ?s1 s" by simp
          from refreshIfExpired_cases [OF Inr] show ?thesis
          proof
            assume "s2 = ?s1"
            then show ?thesis unfolding res by simp
          next
            assume "\<exists>acc exp. resp = RefreshOk acc exp \<and> s2 = refreshed now acc exp a ?s1"
            then obtain acc exp where "s2 = refreshed now acc exp a ?s1" by blast
            with same_store_refreshed [OF s1s, of now acc exp a]
            have "same_store s2 (refreshed now acc exp a s)" by simp
            with a show ?thesis unfolding res by auto
          qed
        qed
      qed
    qed
  qed
qed


lemma assignFreeToken_Inr:
  assumes "assignFreeToken now resp sid s = (Inr a, s')"
  shows "a \<in> set (tokens s) \<and> freeEligible now s a \<and>
         (\<exists>s2. refreshIfExpired now resp a s = Inr s2 \<and> same_store s' s2)"
proof (cases "findFreeToken now s")
  case None
  with assms show ?thesis by (simp add: assignFreeToken_def)
next
  case (Some p)
  obtain i a' where p: "p = (i, a')" by (cases p)
  show ?thesis
  proof (cases "refreshIfExpired now resp a' s")
    case (Inl e)
    with Some p assms show ?thesis by (simp add: assignFreeToken_def)
  next
    case (Inr s1)
    from Some p Inr assms have eq: "a' = a" and s': "same_store s' s1"
      by (auto simp: assignFreeToken_def Let_def)
    from findFreeToken_Some [OF Some [unfolded p]] eq Inr s' show ?thesis by auto
  qed
qed

lemma getTokenForSession_Inr:
  assumes g: "getTokenForSession now resp sid s = (Inr a, s')"
  shows "a \<in> set (tokens s) \<and> enable (heap s a) \<noteq> Some False \<and>
         \<not> isTokenDisabledByQuota now (heap s a) \<and>
         (\<exists>(s1::sticky) s2. same_store s1 s \<and> refreshIfExpired now resp a s1 = Inr s2 \<and> same_store s' s2)"
proof (cases "sid = []")
  case True
  with g show ?thesis by (simp add: getTokenForSession_def)
next
  case ne: False
  have via_assign: ?thesis
    if eq: "getTokenForSession now resp sid s = assignFreeToken now resp sid r"
      and ss: "same_store r s" for r
  proof -
    from g eq have "assignFreeToken now resp sid r = (Inr a, s')" by simp
    from assignFreeToken_Inr [OF this] obtain s2 where
      a: "a \<in> set (tokens r)" and fe: "freeEligible now r a"
      and r: "refreshIfExpired now resp a r = Inr s2" and s2: "same_store s' s2" by blast
    from ss have "heap r = heap s" "tokens r = tokens s" by (simp_all add: same_store_def)
    with a fe have "a \<in> set (tokens s)" "enable (heap s a) \<noteq> Some False"
      "\<not> isTokenDisabledByQuota now (heap s a)" by (simp_all add: freeEligible_def)
    moreover from ss r s2 have "\<exists>(s1::sticky) s2. same_store s1 s \<and>
        refreshIfExpired now resp a s1 = Inr s2 \<and> same_store s' s2" by blast
    ultimately show ?thesis by simp
  qed
  show ?thesis
  proof (cases "map_of (sessionBindings s) sid")
    case None
    show ?thesis
      by (rule via_assign [of s]) (simp_all add: getTokenForSession_def None ne)
  next
    case (Some b)
    let ?s1 = "s\<lparr>sessionBindings :=
                  AList.update sid (b\<lparr>lastAccessTime := now\<rparr>) (sessionBindings s)\<rparr>"
    let ?r = "releaseSession sid ?s1"
    show ?thesis
    proof (cases "find (\<lambda>t. refresh_token (heap ?s1 t) = refreshToken' b) (tokens ?s1)")
      case N: None
      with Some ne have "getTokenForSession now resp sid s = assignFreeToken now resp sid ?r"
        by (simp add: getTokenForSession_def Let_def)
      then show ?thesis by (rule via_assign) simp
    next
      case F: (Some a')
      show ?thesis
      proof (cases "enable (heap ?s1 a') \<noteq> Some False \<and> \<not> isTokenDisabledByQuota now (heap ?s1 a')")
        case False
        with Some ne F have "getTokenForSession now resp sid s = assignFreeToken now resp sid ?r"
          by (auto simp: getTokenForSession_def Let_def)
        then show ?thesis by (rule via_assign) simp
      next
        case True
        show ?thesis
        proof (cases "refreshIfExpired now resp a' ?s1")
          case (Inl e)
          with Some ne F True g show ?thesis by (simp add: getTokenForSession_def Let_def)
        next
          case (Inr s2)
          from Some ne F True Inr g have eq: "a' = a" and s': "same_store s' s2"
            by (auto simp: getTokenForSession_def Let_def)
          have s1s: "same_store ?s1 s" by simp
          from find_Some_set [OF F] have "a' \<in> set (tokens s)" by simp
          with True eq have "a \<in> set (tokens s)" "enable (heap s a) \<noteq> Some False"
            "\<not> isTokenDisabledByQuota now (heap s a)" by simp_all
          moreover from s1s Inr s' eq have "\<exists>(s1::sticky) s2. same_store s1 s \<and>
            refreshIfExpired now resp a s1 = Inr s2 \<and> same_store s' s2" by blast
          ultimately show ?thesis by simp
        qed
      qed
    qed
  qed
qed

lemma isExpired_iff:
  "isExpired now t \<longleftrightarrow>
     (case timestamp t of
        None \<Rightarrow> True
      | Some ts \<Rightarrow>
          (case expires_in t of
             None \<Rightarrow> True
           | Some e \<Rightarrow> ts = 0 \<or> e = 0 \<or> now \<ge> ts + e * 1000 - 300000))"
  by (auto simp: isExpired_def Let_def split: option.splits)


section \<open>The sample pools, evaluated\<close>

lemmas acquire_defs = getTokenForSession_def assignFreeToken_def findFreeToken_def
  refreshIfExpired_def isExpired_def recordUsage_def isTokenDisabledByQuota_def
  releaseSession_def

lemma pool0_fields:
  "heap pool0 0 = tokA" "heap pool0 (Suc 0) = tokB" "nextAddr pool0 = 2"
  "tokens pool0 = [0, 1]" "cachedData pool0 = Some [0, 1]"
  "accountsFile pool0 = Some [tokA, tokB]" "sessionBindings pool0 = []"
  "tokenSessions pool0 = []" "usageStats pool0 = []"
  by (simp_all add: pool0_def newSticky_def loadTokens_def alloc_def loadInterval_def upt_rec
      tokA_def tokB_def)

lemma pool1_fields:
  "sessionBindings pool1 = [(''s1'', \<lparr>tokenIndex = 0, refreshToken' = ''rt-A'', lastAccessTime = 2000000\<rparr>)]"
  "tokenSessions pool1 = [(''rt-A'', ''s1'')]"
  "tokens pool1 = [0, 1]" "heap pool1 = heap pool0" "cachedData pool1 = Some [0, 1]"
  "nextAddr pool1 = 2" "accountsFile pool1 = Some [tokA, tokB]"
  by (simp_all add: pool1_def pool0_fields acquire_defs tokA_def tokB_def Let_def)

lemma pool2_fields:
  "sessionBindings pool2 =
     [(''s1'', \<lparr>tokenIndex = 0, refreshToken' = ''rt-A'', lastAccessTime = 2000000\<rparr>),
      (''s2'', \<lparr>tokenIndex = 1, refreshToken' = ''rt-B'', lastAccessTime = 2000000\<rparr>)]"
  "tokenSessions pool2 = [(''rt-A'', ''s1''), (''rt-B'', ''s2'')]"
  "tokens pool2 = [0, 1]" "heap pool2 = heap pool0" "cachedData pool2 = Some [0, 1]"
  "nextAddr pool2 = 2" "accountsFile pool2 = Some [tokA, tokB]"
  unfolding pool2_def
  by (simp_all add: pool1_fields pool0_fields acquire_defs tokA_def tokB_def Let_def)

lemma reachable_pool2: "reachable pool2"
  unfolding pool2_def pool1_def pool0_def by (intro reachable.intros)


lemma pool3_fields:
  "sessionBindings pool3 =
     [(''s1'', \<lparr>tokenIndex = 0, refreshToken' = ''rt-A'', lastAccessTime = 2000000\<rparr>),
      (''s2'', \<lparr>tokenIndex = 1, refreshToken' = ''rt-B'', lastAccessTime = 2500000\<rparr>)]"
  "tokenSessions pool3 = [(''rt-A'', ''s1''), (''rt-B'', ''s2'')]"
  "tokens pool3 = [0, 1]" "heap pool3 = heap pool0" "cachedData pool3 = Some [0, 1]"
  "nextAddr pool3 = 2" "accountsFile pool3 = Some [tokA, tokB]"
  unfolding pool3_def
  by (simp_all add: pool2_fields pool0_fields acquire_defs tokA_def tokB_def Let_def)

lemma reachable_pool3: "reachable pool3"
  unfolding pool3_def by (intro reachable.intros reachable_pool2)

lemma reachable_pool1: "reachable pool1"
  unfolding pool1_def pool0_def by (intro reachable.intros)


lemma poolZ_fields:
  "heap poolZ 0 = tokZ" "nextAddr poolZ = 1" "tokens poolZ = [0]" "cachedData poolZ = Some [0]"
  "accountsFile poolZ = Some [tokZ]" "sessionBindings poolZ = []" "tokenSessions poolZ = []"
  "usageStats poolZ = []"
  by (simp_all add: poolZ_def newSticky_def loadTokens_def alloc_def loadInterval_def upt_rec
      tokZ_def)

lemma allocated_pool0: "allocated pool0"
  unfolding pool0_def by (rule allocated_new)

lemma allocated_pool1: "allocated pool1"
  using reachable_inv [OF reachable_pool1] by simp



lemma store_ok_pool2: "store_ok pool2"
  by (simp add: store_ok_def pool2_fields pool0_fields tokA_def tokB_def)




lemma rr0_fields:
  "heap rr0 0 = tokA" "heap rr0 (Suc 0) = tokB" "nextAddr rr0 = 2"
  "tokens rr0 = [0, 1]" "cachedData rr0 = Some [0, 1]"
  "accountsFile rr0 = Some [tokA, tokB]" "lastLoadTime rr0 = 1990000"
  "currentTokenIndex rr0 = 0" "usageStats rr0 = []"
  by (simp_all add: rr0_def newRoundRobin_def loadTokens_def alloc_def loadInterval_def upt_rec
      tokA_def tokB_def)

lemma allocated_rr0: "allocated rr0"
  unfolding rr0_def newRoundRobin_def by (rule allocated_loadTokens) (simp add: allocated_def)

lemmas rr_defs = getNextToken_def availableTokens_def loadTokens_def loadInterval_def
  refreshIfExpired_def isExpired_def recordUsage_def isTokenDisabledByQuota_def

lemma wrap_mod: "(10000::nat) mod Suc (Suc 0) = 0"
  by (simp add: numeral_2_eq_2 [symmetric])




section \<open>Properties of every token record the pool knows\<close>

lemma all_tokens_same_store: "same_store s t \<Longrightarrow> all_tokens B s = all_tokens B t"
  by (simp add: same_store_def all_tokens_def)

lemma all_tokens_heap_upd:
  assumes "all_tokens B s" "B (heap s x) \<longrightarrow> B t"
  shows "all_tokens B (s\<lparr>heap := (heap s)(x := t)\<rparr>)"
  using assms by (auto simp: all_tokens_def)


lemma alloc_fresh_in_file:
  assumes a: "alloc f s = (as, s1)" and x: "x \<in> set as"
  shows "heap s1 x \<in> set f"
proof -
  from alloc_parts(6) [OF a] have "map (heap s1) as = f" .
  then have "set f = heap s1 ` set as" by auto
  with x show ?thesis by simp
qed

lemma alloc_heap_old:
  assumes a: "alloc f s = (as, s1)" and x: "x < nextAddr s"
  shows "heap s1 x = heap s x"
  using alloc_old [OF x, of f] a by simp

lemma all_tokens_alloc:
  assumes B: "all_tokens B s" and al: "allocated s" and f: "accountsFile s = Some f"
    and a: "alloc f s = (as, s1)"
  shows "\<forall>x\<in>set as \<union> set (tokens s). B (heap s1 x)"
proof
  fix x assume "x \<in> set as \<union> set (tokens s)"
  then show "B (heap s1 x)"
  proof
    assume "x \<in> set as"
    from alloc_fresh_in_file [OF a this] B f show ?thesis by (auto simp: all_tokens_def)
  next
    assume x: "x \<in> set (tokens s)"
    with al have "x < nextAddr s" by (simp add: allocated_def)
    from alloc_heap_old [OF a this] B x show ?thesis by (simp add: all_tokens_def)
  qed
qed

lemma all_tokens_saveToFile:
  assumes B: "all_tokens B s" and al: "allocated s"
  shows "all_tokens B (saveToFile s)"
proof (cases "cachedData s")
  case None
  show ?thesis
  proof (cases "accountsFile s")
    case N: None
    with None B show ?thesis by (simp add: saveToFile_def)
  next
    case (Some f)
    obtain as s1 where a: "alloc f s = (as, s1)" by (cases "alloc f s")
    note p = alloc_parts [OF a]
    let ?all = "foldl (\<lambda>all m. replaceFirst (\<lambda>t. refresh_token (heap s1 t) = refresh_token (heap s1 m)) m all) as (tokens s)"
    have sub: "set ?all \<subseteq> set as \<union> set (tokens s)"
      by (rule set_foldl_replaceFirst [of "\<lambda>m t. refresh_token (heap s1 t) = refresh_token (heap s1 m)"])
    have sv: "saveToFile s = s1\<lparr>accountsFile := Some (map (heap s1) ?all), cachedData := Some ?all\<rparr>"
      using None Some a p(1) by (simp add: saveToFile_def Let_def)
    from all_tokens_alloc [OF B al Some a] sub
    have "\<forall>x\<in>set ?all. B (heap s1 x)" "\<forall>x\<in>set (tokens s). B (heap s1 x)" by auto
    then show ?thesis unfolding sv using p(1) by (auto simp: all_tokens_def)
  qed
next
  case (Some cd)
  let ?all = "foldl (\<lambda>all m. replaceFirst (\<lambda>t. refresh_token (heap s t) = refresh_token (heap s m)) m all) cd (tokens s)"
  have sub: "set ?all \<subseteq> set cd \<union> set (tokens s)"
    by (rule set_foldl_replaceFirst [of "\<lambda>m t. refresh_token (heap s t) = refresh_token (heap s m)"])
  have sv: "saveToFile s = s\<lparr>accountsFile := Some (map (heap s) ?all), cachedData := Some ?all\<rparr>"
    using Some by (simp add: saveToFile_def Let_def)
  from B Some sub have "\<forall>x\<in>set ?all. B (heap s x)" by (auto simp: all_tokens_def)
  then show ?thesis unfolding sv using B by (auto simp: all_tokens_def)
qed

lemma all_tokens_loadTokens:
  assumes B: "all_tokens B s" and al: "allocated s"
  shows "all_tokens B (loadTokens force now s)"
proof (cases "\<not> force \<and> now - lastLoadTime s < loadInterval \<and> length (tokens s) > 0")
  case True
  with B show ?thesis by (simp add: loadTokens_def)
next
  case False
  show ?thesis
  proof (cases "accountsFile s")
    case None
    with False B show ?thesis by (auto simp: loadTokens_def all_tokens_def)
  next
    case (Some f)
    obtain as s1 where a: "alloc f s = (as, s1)" by (cases "alloc f s")
    note p = alloc_parts [OF a]
    from False Some a have ld: "loadTokens force now s = s1\<lparr>cachedData := Some as,
                tokens := filter (\<lambda>a. enable (heap s1 a) \<noteq> Some False) as,
                lastLoadTime := now\<rparr>"
      by (auto simp: loadTokens_def)
    from all_tokens_alloc [OF B al Some a] have "\<forall>x\<in>set as. B (heap s1 x)" by auto
    then show ?thesis unfolding ld using B Some p(3) by (auto simp: all_tokens_def)
  qed
qed




lemma same_store_releaseTokenSession [simp]:
  "same_store (releaseTokenSession a s) u = same_store s u"
  by (simp add: releaseTokenSession_def split: option.splits)

lemma same_store_sessionCleanup_fold:
  "same_store (foldl (\<lambda>st (sessionId, b).
              if now - lastAccessTime b > SESSION_TIMEOUT then releaseSession sessionId st else st)
            st xs) u = same_store st u"
proof (induction xs arbitrary: st)
  case Nil
  show ?case by simp
next
  case (Cons x xs)
  obtain sid b where x: "x = (sid, b)" by (cases x)
  show ?case
  proof (cases "now - lastAccessTime b > SESSION_TIMEOUT")
    case True
    then show ?thesis unfolding x using Cons.IH [of "releaseSession sid st"] by simp
  next
    case False
    then show ?thesis unfolding x using Cons.IH [of st] by simp
  qed
qed

lemma same_store_sessionCleanup [simp]: "same_store (sessionCleanup now s) u = same_store s u"
  unfolding sessionCleanup_def by (rule same_store_sessionCleanup_fold)

lemma all_tokens_sticky_simps [simp]:
  "all_tokens B (releaseTokenSession a s) = all_tokens B s"
  "all_tokens B (releaseSession sid s) = all_tokens B s"
  "all_tokens B (sessionCleanup now s) = all_tokens B s"
  by (rule all_tokens_same_store, simp)+


lemma all_tokens_disable_save:
  assumes B: "all_tokens B s" and al: "allocated s" and k: "keeps_disable B"
  shows "all_tokens B (saveToFile (s\<lparr>heap := (heap s)(a := (heap s a)
      \<lparr>enable := Some False, disabledUntil := None, quotaExhausted := None\<rparr>)\<rparr>))"
proof -
  from k have "all_tokens B (s\<lparr>heap := (heap s)(a := (heap s a)
      \<lparr>enable := Some False, disabledUntil := None, quotaExhausted := None\<rparr>)\<rparr>)"
    by (intro all_tokens_heap_upd [OF B]) (simp add: keeps_disable_def)
  from all_tokens_saveToFile [OF this] al show ?thesis by simp
qed


lemma all_tokens_rr_disableToken:
  assumes B: "all_tokens B s" and al: "allocated s" and k: "keeps_disable B"
  shows "all_tokens B (rr_disableToken now a s)"
  unfolding rr_disableToken_def
  by (rule all_tokens_loadTokens)
    (simp_all add: all_tokens_disable_save [OF B al k] allocated_saveToFile al)




lemma quotaReset_fold:
  "resetHeap now h0 h \<Longrightarrow>
   resetHeap now h0
     (fst (foldl (\<lambda>(h, restoredCount) a.
                         if quotaResetDue now (h a)
                         then (h(a := (h a)\<lparr>disabledUntil := None, quotaExhausted := None\<rparr>),
                               restoredCount + 1)
                         else (h, restoredCount))
                      (h, n::nat) cd))"
  (is "_ \<Longrightarrow> resetHeap now h0 (fst (foldl ?f (h, n) cd))")
proof (induction cd arbitrary: h n)
  case Nil
  then show ?case by simp
next
  case (Cons a cd)
  show ?case
  proof (cases "quotaResetDue now (h a)")
    case True
    let ?h = "h(a := (h a)\<lparr>disabledUntil := None, quotaExhausted := None\<rparr>)"
    from Cons.prems have "h a = h0 a \<or>
      (quotaResetDue now (h0 a) \<and> h a = (h0 a)\<lparr>disabledUntil := None, quotaExhausted := None\<rparr>)"
      by (simp add: resetHeap_def)
    with True have ha: "h a = h0 a" by (auto simp: quotaResetDue_def)
    with True Cons.prems have r: "resetHeap now h0 ?h"
      by (auto simp: resetHeap_def)
    have st: "foldl ?f (h, n) (a # cd) = foldl ?f (?h, n + 1) cd"
      using True by simp
    show ?thesis unfolding st by (rule Cons.IH [OF r])
  next
    case False
    have st: "foldl ?f (h, n) (a # cd) = foldl ?f (h, n) cd"
      using False by simp
    show ?thesis unfolding st by (rule Cons.IH [OF Cons.prems])
  qed
qed


lemma resetHeap_refl: "resetHeap now h h"
  by (simp add: resetHeap_def)















section \<open>The store invariant is kept\<close>

lemma store_ok_same_store: "same_store s t \<Longrightarrow> store_ok s = store_ok t"
  by (simp add: same_store_def store_ok_def)

lemma store_ok_heap_pointwise:
  assumes "store_ok s" "\<And>a. refresh_token (h a) = refresh_token (heap s a)"
  shows "store_ok (s\<lparr>heap := h\<rparr>)"
  using assms by (simp add: store_ok_def)

lemma store_ok_refreshed: "store_ok s \<Longrightarrow> store_ok (refreshed now acc exp a s)"
  unfolding refreshed_def
  by (intro store_ok_saveToFile store_ok_heap_upd) simp_all

lemma store_ok_getTokenForSession:
  assumes ok: "store_ok s"
  shows "store_ok (snd (getTokenForSession now resp sid s))"
  using getTokenForSession_store [of now resp sid s]
proof
  assume "same_store (snd (getTokenForSession now resp sid s)) s"
  from store_ok_same_store [OF this] ok show ?thesis by simp
next
  assume "\<exists>a acc exp. a \<in> set (tokens s) \<and>
      same_store (snd (getTokenForSession now resp sid s)) (refreshed now acc exp a s)"
  then obtain a acc exp where
    "same_store (snd (getTokenForSession now resp sid s)) (refreshed now acc exp a s)" by blast
  from store_ok_same_store [OF this] store_ok_refreshed [OF ok] show ?thesis by simp
qed

lemma store_ok_sticky_simps [simp]:
  "store_ok (releaseTokenSession a s) = store_ok s"
  "store_ok (sessionCleanup now s) = store_ok s"
  by (rule store_ok_same_store, simp)+

lemma store_ok_disableTokenUntil: "store_ok s \<Longrightarrow> store_ok (disableTokenUntil a r s)"
  unfolding disableTokenUntil_def
  by (simp add: store_ok_saveToFile store_ok_heap_upd)

lemma store_ok_disableToken: "store_ok s \<Longrightarrow> store_ok (disableToken now a s)"
  unfolding disableToken_def
  by (simp add: store_ok_loadTokens store_ok_saveToFile store_ok_heap_upd)

lemma store_ok_reassignOrThrow:
  "store_ok s \<Longrightarrow> store_ok (snd (reassignOrThrow now resp error sid s))"
  by (simp add: reassignOrThrow_def store_ok_getTokenForSession split: option.splits)

lemma store_ok_handleRequestError:
  "store_ok s \<Longrightarrow> store_ok (snd (handleRequestError now resp error a sid s))"
  by (simp add: handleRequestError_def store_ok_reassignOrThrow store_ok_disableTokenUntil
      store_ok_disableToken)

lemma store_ok_disableCurrentToken:
  "store_ok s \<Longrightarrow> store_ok (disableCurrentToken now a s)"
  by (simp add: disableCurrentToken_def store_ok_disableToken split: option.splits)

lemma resetHeap_ids:
  assumes "resetHeap now h0 h"
  shows "refresh_token (h a) = refresh_token (h0 a)"
proof -
  from assms have "h a = h0 a \<or>
      h a = (h0 a)\<lparr>disabledUntil := None, quotaExhausted := None\<rparr>"
    by (auto simp: resetHeap_def)
  then show ?thesis by auto
qed

lemma store_ok_quotaResetCheck:
  assumes ok: "store_ok s"
  shows "store_ok (quotaResetCheck now s)"
proof (cases "cachedData s")
  case None
  with ok show ?thesis by (simp add: quotaResetCheck_def)
next
  case (Some cd)
  obtain h' c where f: "foldl (\<lambda>(h, restoredCount) a.
                         if quotaResetDue now (h a)
                         then (h(a := (h a)\<lparr>disabledUntil := None, quotaExhausted := None\<rparr>),
                               restoredCount + 1)
                         else (h, restoredCount))
                      (heap s, 0::nat) cd = (h', c)" by (cases rule: prod.exhaust)
  from quotaReset_fold [OF resetHeap_refl, of now "heap s" 0 cd] f
  have "resetHeap now (heap s) h'" by simp
  from store_ok_heap_pointwise [OF ok resetHeap_ids [OF this]]
  have 1: "store_ok (s\<lparr>heap := h'\<rparr>)" .
  have "store_ok (loadTokens True now (saveToFile (s\<lparr>heap := h'\<rparr>)))"
    by (intro store_ok_loadTokens store_ok_saveToFile 1)
  with 1 Some f show ?thesis by (simp add: quotaResetCheck_def)
qed

lemma store_ok_step:
  assumes ok: "store_ok s" and x: "fileOk x"
  shows "store_ok (step x s)"
proof (cases x)
  case (ExternalWrite f)
  with x ok show ?thesis by (simp add: store_ok_def uniqueIds_def)
qed (simp_all add: ok store_ok_getTokenForSession store_ok_handleRequestError
    store_ok_disableToken store_ok_disableTokenUntil store_ok_disableCurrentToken
    store_ok_quotaResetCheck forceReload_def store_ok_loadTokens)

lemma store_ok_new: "uniqueIds f \<Longrightarrow> store_ok (newSticky now f)"
  unfolding newSticky_def
  by (rule store_ok_loadTokens) (simp add: store_ok_def uniqueIds_def)

text \<open>With account files whose records have distinct refresh tokens, every state the
  pool reaches satisfies the three invariants.\<close>

lemma run_invariants:
  assumes "uniqueIds f" "\<forall>x\<in>set ops. fileOk x"
  shows "store_ok (run ops (newSticky now f)) \<and> bindings_ok (run ops (newSticky now f)) \<and>
         allocated (run ops (newSticky now f))"
proof -
  have "store_ok (foldl (\<lambda>st x. step x st) s ops) \<and>
        bindings_ok (foldl (\<lambda>st x. step x st) s ops) \<and>
        allocated (foldl (\<lambda>st x. step x st) s ops)"
    if "store_ok s" "bindings_ok s" "allocated s" "\<forall>x\<in>set ops. fileOk x" for s
    using that
  proof (induction ops arbitrary: s)
    case Nil
    then show ?case by simp
  next
    case (Cons y ops)
    from Cons.prems have y: "fileOk y" by simp
    from store_ok_step [OF Cons.prems(1) y] step_inv [OF Cons.prems(2,3), of y] Cons.prems(4)
    show ?case by (simp add: Cons.IH)
  qed
  from this [OF store_ok_new [OF assms(1)] bindings_ok_new allocated_new assms(2)]
  show ?thesis by (simp add: run_def)
qed


section \<open>The failure transitions\<close>





















section \<open>Round-robin acquisition\<close>

lemma rr_more_eq:
  fixes s t :: roundrobin
  assumes "store.more s = store.more t"
  shows "currentTokenIndex s = currentTokenIndex t"
  using assms by (cases s, cases t, simp)

lemma rr_cursor_store [simp]:
  fixes s :: roundrobin
  shows "currentTokenIndex (loadTokens force now s) = currentTokenIndex s"
    "currentTokenIndex (saveToFile s) = currentTokenIndex s"
    "currentTokenIndex (recordUsage now t s) = currentTokenIndex s"
  by (rule rr_more_eq, simp add: loadTokens_more saveToFile_more recordUsage_def Let_def)+

lemma refreshIfExpired_cursor:
  fixes s :: roundrobin
  assumes "refreshIfExpired now resp a s = Inr s'"
  shows "currentTokenIndex s' = currentTokenIndex s"
  using assms
  by (auto simp: refreshIfExpired_def refreshToken_def split: if_splits response.splits)

lemma allocated_cursor [simp]:
  fixes s :: roundrobin
  shows "allocated (s\<lparr>currentTokenIndex := n\<rparr>) = allocated s"
  by (simp add: allocated_def)

text \<open>One session-less acquisition.\<close>

lemma getNextToken_Inr:
  assumes g: "getNextToken now resp s = (Inr a, s')"
  shows "availableTokens now (loadTokens False now s) \<noteq> []"
    "a = availableTokens now (loadTokens False now s) !
           (currentTokenIndex s mod length (availableTokens now (loadTokens False now s)))"
    "currentTokenIndex s' =
       (if currentTokenIndex s + 1 > 10000 then 0 else currentTokenIndex s + 1)"
    "allocated s \<Longrightarrow>
       refresh_token (heap s' a) = refresh_token (heap (loadTokens False now s) a) \<and>
       enable (heap s' a) = enable (heap (loadTokens False now s) a) \<and> allocated s'"
proof -
  let ?s0 = "loadTokens False now s"
  let ?av = "availableTokens now ?s0"
  let ?a = "?av ! (currentTokenIndex s mod length ?av)"
  let ?s1 = "?s0\<lparr>currentTokenIndex :=
                  (if currentTokenIndex s + 1 > 10000 then 0 else currentTokenIndex s + 1)\<rparr>"
  from g have t: "tokens ?s0 \<noteq> []" by (auto simp: getNextToken_def Let_def split: if_splits)
  from g t show av: "?av \<noteq> []" by (auto simp: getNextToken_def Let_def split: if_splits)
  from g t av obtain s2 where r: "refreshIfExpired now resp ?a ?s1 = Inr s2"
    and a: "a = ?a" and s': "s' = recordUsage now (heap s2 ?a) s2"
    by (auto simp: getNextToken_def Let_def split: if_splits sum.splits)
  show "a = ?a" by (rule a)
  from refreshIfExpired_cursor [OF r] s'
  show "currentTokenIndex s' =
       (if currentTokenIndex s + 1 > 10000 then 0 else currentTokenIndex s + 1)" by simp
  assume al: "allocated s"
  then have al0: "allocated ?s0" by (rule allocated_loadTokens)
  then have al1: "allocated ?s1" by simp
  from av have "?a \<in> set ?av" by simp
  then have "?a \<in> set (tokens ?s0)" by (simp add: availableTokens_def)
  with al0 have lt: "?a < nextAddr ?s1" by (simp add: allocated_def)
  from refreshIfExpired_heap(1,2) [OF r lt] refreshIfExpired_allocated [OF r al1] a s'
  show "refresh_token (heap s' a) = refresh_token (heap ?s0 a) \<and>
       enable (heap s' a) = enable (heap ?s0 a) \<and> allocated s'" by simp
qed

lemma nth_mod_rotate:
  assumes "k < length ids"
  shows "ids ! ((c + k) mod length ids) = rotate c ids ! k"
  using nth_rotate [OF assms, of c] by simp

lemma roundRobinRun_indices:
  assumes "stablePool ids es s" "allocated s" "ids \<noteq> []"
    "currentTokenIndex s + length es \<le> 10001"
  shows "roundRobinRun es s =
     map (\<lambda>k. Inr (ids ! ((currentTokenIndex s + k) mod length ids))) [0..<length es]"
  using assms
proof (induction es arbitrary: s)
  case Nil
  then show ?case by simp
next
  case (Cons e es)
  obtain now resp where e: "e = (now, resp)" by (cases e)
  let ?s0 = "loadTokens False now s"
  from Cons.prems(1) e have ids: "map (\<lambda>a. refresh_token (heap ?s0 a)) (availableTokens now ?s0) = ids"
    by simp
  from Cons.prems(1) e obtain a s' where g: "getNextToken now resp s = (Inr a, s')"
    and st: "stablePool ids es s'"
    by (auto split: prod.splits sum.splits)
  note n = getNextToken_Inr [OF g]
  from n(4) [OF Cons.prems(2)] have rt: "refresh_token (heap s' a) = refresh_token (heap ?s0 a)"
    and al': "allocated s'" by simp_all
  from ids have len: "length (availableTokens now ?s0) = length ids" by auto
  from Cons.prems(3) have pos: "currentTokenIndex s mod length ids < length ids" by simp
  from ids have "ids ! (currentTokenIndex s mod length ids)
      = refresh_token (heap ?s0 (availableTokens now ?s0 ! (currentTokenIndex s mod length ids)))"
    using pos len by (metis nth_map)
  with n(2) len rt have first: "refresh_token (heap s' a) = ids ! (currentTokenIndex s mod length ids)"
    by simp
  have rest: "roundRobinRun es s' =
     map (\<lambda>k. Inr (ids ! ((currentTokenIndex s + Suc k) mod length ids))) [0..<length es]"
  proof (cases es)
    case Nil
    then show ?thesis by simp
  next
    case (Cons e' es')
    with Cons.prems(4) have "currentTokenIndex s + 1 \<le> 10000" by simp
    with n(3) have cur: "currentTokenIndex s' = currentTokenIndex s + 1" by simp
    with Cons.prems(4) have "currentTokenIndex s' + length es \<le> 10001" by simp
    from Cons.IH [OF st al' Cons.prems(3) this] cur show ?thesis by simp
  qed
  have "[0..<length (e # es)] = 0 # map Suc [0..<length es]"
    by (simp add: upt_conv_Cons map_Suc_upt del: upt_Suc)
  then show ?case using g e first rest by (simp add: comp_def del: upt_Suc)
qed






section \<open>Sticky sessions\<close>

text \<open>
  Claim C1, as amended. Let session \<open>sid\<close> be bound, and let the credential the
  binding names (the first token of the list with the bound refresh token) be enabled
  and not quota-disabled at \<open>now\<close>. Then \<^verbatim>\<open>getTokenForSession(sid)\<close> returns that same
  credential when its access token needs no refresh or the refresh succeeds; when a
  needed refresh fails, the call throws the refresh error. In both cases the session
  stays bound to the same credential id, with its access time set to \<open>now\<close>.
\<close>

theorem reacquire_returns_same_credential:
  assumes ne: "sid \<noteq> []" and b: "map_of (sessionBindings s) sid = Some b"
    and f: "find (\<lambda>t. refresh_token (heap s t) = refreshToken' b) (tokens s) = Some a"
    and en: "enable (heap s a) \<noteq> Some False" and q: "\<not> isTokenDisabledByQuota now (heap s a)"
    and al: "allocated s"
  shows "fst (getTokenForSession now resp sid s) =
           (if isExpired now (heap s a) then refreshOutcome resp a else Inr a) \<and>
         refresh_token (heap (snd (getTokenForSession now resp sid s)) a) = refreshToken' b \<and>
         map_of (sessionBindings (snd (getTokenForSession now resp sid s))) sid =
           Some (b\<lparr>lastAccessTime := now\<rparr>)"
proof -
  let ?s1 = "s\<lparr>sessionBindings :=
                   AList.update sid (b\<lparr>lastAccessTime := now\<rparr>) (sessionBindings s)\<rparr>"
  note g = getTokenForSession_bound [OF ne b f en q, of resp]
  from find_Some_set [OF f] have a: "a \<in> set (tokens s)"
    and rt: "refresh_token (heap s a) = refreshToken' b" by simp_all
  from a al have lt: "a < nextAddr ?s1" by (simp add: allocated_def)
  show ?thesis
  proof (cases "refreshIfExpired now resp a ?s1")
    case (Inl e)
    with refreshIfExpired_Inl [OF Inl] rt show ?thesis by (simp add: g Let_def update_conv')
  next
    case (Inr s2)
    from refreshIfExpired_heap(1) [OF Inr lt] rt
    have "refresh_token (heap s2 a) = refreshToken' b" by simp
    moreover from refreshIfExpired_frame(1) [OF Inr]
    have "map_of (sessionBindings s2) sid = Some (b\<lparr>lastAccessTime := now\<rparr>)"
      by (simp add: update_conv')
    ultimately show ?thesis using refreshIfExpired_Inr [OF Inr] Inr by (simp add: g Let_def)
  qed
qed


theorem reacquire_witness:
  "''s1'' \<noteq> [] \<and>
   map_of (sessionBindings pool1) ''s1''
     = Some \<lparr>tokenIndex = 0, refreshToken' = ''rt-A'', lastAccessTime = 2000000\<rparr> \<and>
   find (\<lambda>t. refresh_token (heap pool1 t) = ''rt-A'') (tokens pool1) = Some 0 \<and>
   enable (heap pool1 0) \<noteq> Some False \<and> \<not> isTokenDisabledByQuota 2100000 (heap pool1 0) \<and>
   allocated pool1 \<and>
   fst (getTokenForSession 2100000 (FetchFailed []) ''s1'' pool1) = Inr 0 \<and>
   refresh_token (heap (snd (getTokenForSession 2100000 (FetchFailed []) ''s1'' pool1)) 0)
     = ''rt-A''"
proof -
  have h: "''s1'' \<noteq> []"
    "map_of (sessionBindings pool1) ''s1''
       = Some \<lparr>tokenIndex = 0, refreshToken' = ''rt-A'', lastAccessTime = 2000000\<rparr>"
    "find (\<lambda>t. refresh_token (heap pool1 t)
           = refreshToken' \<lparr>tokenIndex = 0, refreshToken' = ''rt-A'', lastAccessTime = 2000000\<rparr>)
        (tokens pool1) = Some 0"
    "enable (heap pool1 0) \<noteq> Some False" "\<not> isTokenDisabledByQuota 2100000 (heap pool1 0)"
    by (simp_all add: pool1_fields pool0_fields tokA_def tokB_def isTokenDisabledByQuota_def)
  show ?thesis
    using h allocated_pool1
      reacquire_returns_same_credential [OF h allocated_pool1, of "FetchFailed []"]
    by (simp add: pool1_fields pool0_fields tokA_def isExpired_def)
qed

text \<open>
  The claim as stated fails when the bound credential is due for a refresh and the
  OAuth endpoint rejects the request: session \<^verbatim>\<open>s1\<close> is bound to an enabled credential
  without cooldown, and the repeated acquire returns no credential at all.
\<close>

theorem reacquire_counterexample:
  "map_of (sessionBindings pool1) ''s1''
     = Some \<lparr>tokenIndex = 0, refreshToken' = ''rt-A'', lastAccessTime = 2000000\<rparr> \<and>
   refresh_token (heap pool1 0) = ''rt-A'' \<and>
   enable (heap pool1 0) \<noteq> Some False \<and> \<not> isTokenDisabledByQuota 5000000 (heap pool1 0) \<and>
   fst (getTokenForSession 5000000 (RefreshDenied 500 ''unavailable'') ''s1'' pool1)
     = Inl (Thrown \<lparr>statusCode = Some 500, message = Some ''unavailable''\<rparr>)"
  by (simp add: pool1_fields pool0_fields tokA_def tokB_def acquire_defs refreshToken_def
      Let_def)


section \<open>One session per credential\<close>




section \<open>Quota errors\<close>






section \<open>Revoked access\<close>






section \<open>Status 400\<close>





section \<open>Unclassified errors\<close>

text \<open>
  Claim C6. For an error whose status code is none of 429, 403 and 400 and whose
  message does not contain \<^verbatim>\<open>quota\<close>, \<^verbatim>\<open>handleRequestError\<close> throws that very error
  and changes nothing: the state after the call, token records and session bindings
  included, is the state before it. This holds in the sticky-session variant and in
  the round-robin variant.
\<close>

theorem unclassified_error_is_rethrown_unchanged:
  assumes "statusCode error \<noteq> Some 429" and "statusCode error \<noteq> Some 403"
    and "statusCode error \<noteq> Some 400"
    and "\<not> messageIndicatesQuota error"
  shows "handleRequestError now resp error a sessionId s = (Inl (Thrown error), s) \<and>
         rr_handleRequestError now resp error a r = (Inl (Thrown error), r)"
  using assms
  by (simp add: handleRequestError_def rr_handleRequestError_def isQuotaError_def)

theorem unclassified_error_witness:
  "statusCode err500 \<noteq> Some 429 \<and> statusCode err500 \<noteq> Some 403 \<and>
   statusCode err500 \<noteq> Some 400 \<and>
   \<not> messageIndicatesQuota err500 \<and>
   handleRequestError 2000000 (FetchFailed []) err500 0 (Some ''s1'')
       (newSticky 0 (Some [tokA, tokB]))
     = (Inl (Thrown err500), newSticky 0 (Some [tokA, tokB])) \<and>
   rr_handleRequestError 2000000 (FetchFailed []) err500 0 (newRoundRobin 0 (Some [tokA, tokB]))
     = (Inl (Thrown err500), newRoundRobin 0 (Some [tokA, tokB]))"
proof -
  have h: "statusCode err500 \<noteq> Some 429" "statusCode err500 \<noteq> Some 403"
    "statusCode err500 \<noteq> Some 400"
    "\<not> messageIndicatesQuota err500"
    by (simp_all add: err500_def messageIndicatesQuota_def)
  show ?thesis
    using h unclassified_error_is_rethrown_unchanged [OF h]
    by simp
qed


section \<open>Refreshing on acquisition\<close>

text \<open>
  Claim C7, as amended. Whenever \<^verbatim>\<open>getTokenForSession\<close> returns a credential, its
  access token was refreshed during the call exactly when \<^verbatim>\<open>isExpired\<close> held, that is
  when \<^verbatim>\<open>timestamp\<close> or \<^verbatim>\<open>expires_in\<close> is missing or zero, or
  \<open>now \<ge> timestamp + expires_in * 1000 - 300000\<close>. After a refresh the returned record
  carries the access token and lifetime the endpoint sent and \<open>now\<close> as its issue time;
  without one the record is unchanged. A credential issued 3600 s ago with a lifetime
  of 3500 s is refreshed.
\<close>

theorem refresh_on_acquire:
  assumes g: "getTokenForSession now resp sid s = (Inr a, s')" and al: "allocated s"
  shows "(isExpired now (heap s a) \<longleftrightarrow>
            (case timestamp (heap s a) of
               None \<Rightarrow> True
             | Some ts \<Rightarrow>
                 (case expires_in (heap s a) of
                    None \<Rightarrow> True
                  | Some e \<Rightarrow> ts = 0 \<or> e = 0 \<or> now \<ge> ts + e * 1000 - 300000))) \<and>
         (if isExpired now (heap s a)
          then \<exists>acc exp. resp = RefreshOk acc exp \<and>
                 heap s' a = (heap s a)\<lparr>access_token := acc, expires_in := exp,
                                        timestamp := Some now\<rparr>
          else heap s' a = heap s a) \<and>
         (timestamp (heap s a) = Some (now - 3600 * 1000) \<and> now \<noteq> 3600 * 1000 \<and>
            expires_in (heap s a) = Some 3500 \<longrightarrow> isExpired now (heap s a))"
proof -
  from getTokenForSession_Inr [OF g] obtain s1 :: sticky and s2 where
    a: "a \<in> set (tokens s)" and s1: "same_store s1 s"
    and r: "refreshIfExpired now resp a s1 = Inr s2" and s2: "same_store s' s2" by blast
  from a al s1 have lt: "a < nextAddr s1" by (simp add: allocated_def same_store_def)
  from s1 s2 have h: "heap s1 = heap s" "heap s' = heap s2" by (simp_all add: same_store_def)
  have 2: "if isExpired now (heap s a)
          then \<exists>acc exp. resp = RefreshOk acc exp \<and>
                 heap s' a = (heap s a)\<lparr>access_token := acc, expires_in := exp,
                                        timestamp := Some now\<rparr>
          else heap s' a = heap s a"
    using refreshIfExpired_result [OF r lt] h by auto
  have 3: "timestamp (heap s a) = Some (now - 3600 * 1000) \<and> now \<noteq> 3600 * 1000 \<and>
            expires_in (heap s a) = Some 3500 \<longrightarrow> isExpired now (heap s a)"
    by (auto simp: isExpired_def)
  from isExpired_iff [of now "heap s a"] 2 3 show ?thesis by blast
qed


theorem refresh_on_acquire_witness:
  "allocated pool0 \<and>
   fst (getTokenForSession 5000000 (RefreshOk ''at-A2'' (Some 3599)) ''s1'' pool0) = Inr 0 \<and>
   isExpired 5000000 (heap pool0 0) \<and>
   heap (snd (getTokenForSession 5000000 (RefreshOk ''at-A2'' (Some 3599)) ''s1'' pool0)) 0
     = tokA\<lparr>access_token := ''at-A2'', expires_in := Some 3599, timestamp := Some 5000000\<rparr>"
proof -
  have f: "fst (getTokenForSession 5000000 (RefreshOk ''at-A2'' (Some 3599)) ''s1'' pool0) = Inr 0"
    by (simp add: pool0_fields tokA_def tokB_def acquire_defs refreshToken_def Let_def)
  then have g: "getTokenForSession 5000000 (RefreshOk ''at-A2'' (Some 3599)) ''s1'' pool0
      = (Inr 0, snd (getTokenForSession 5000000 (RefreshOk ''at-A2'' (Some 3599)) ''s1'' pool0))"
    by (simp add: prod_eq_iff)
  have e: "isExpired 5000000 (heap pool0 0)"
    by (simp add: pool0_fields tokA_def isExpired_def)
  from refresh_on_acquire [OF g allocated_pool0] e
  have "\<exists>acc exp. RefreshOk ''at-A2'' (Some 3599) = RefreshOk acc exp \<and>
      heap (snd (getTokenForSession 5000000 (RefreshOk ''at-A2'' (Some 3599)) ''s1'' pool0)) 0
        = (heap pool0 0)\<lparr>access_token := acc, expires_in := exp, timestamp := Some 5000000\<rparr>"
    by simp
  then have "heap (snd (getTokenForSession 5000000 (RefreshOk ''at-A2'' (Some 3599)) ''s1'' pool0)) 0
      = tokA\<lparr>access_token := ''at-A2'', expires_in := Some 3599, timestamp := Some 5000000\<rparr>"
    by (auto simp: pool0_fields)
  with f e allocated_pool0 show ?thesis by simp
qed

text \<open>
  The claim as stated fails on a record whose issue time is 0: the test
  \<open>now \<ge> timestamp + expires_in * 1000 - 300000\<close> is false, yet the acquire refreshes
  the credential.
\<close>

theorem refresh_on_acquire_counterexample:
  "timestamp (heap poolZ 0) = Some 0 \<and> expires_in (heap poolZ 0) = Some 2000000000 \<and>
   \<not> ((1700000000000::int) \<ge> 0 + 2000000000 * 1000 - 300000) \<and>
   fst (getTokenForSession 1700000000000 (RefreshOk ''fresh'' (Some 3600)) ''s1'' poolZ) = Inr 0 \<and>
   access_token (heap poolZ 0) = ''at-Z'' \<and>
   access_token
     (heap (snd (getTokenForSession 1700000000000 (RefreshOk ''fresh'' (Some 3600)) ''s1'' poolZ)) 0)
     = ''fresh''"
  by (simp add: poolZ_fields tokZ_def acquire_defs refreshToken_def saveToFile_def Let_def)


section \<open>Round-robin fairness\<close>

text \<open>
  Claim C8, as amended. Take a run of \<open>N\<close> consecutive \<^verbatim>\<open>getNextToken\<close> calls during
  which the eligible credentials stay the same: at every call the available tokens have,
  in list order, the \<open>N\<close> distinct ids \<open>ids\<close>, and every call returns. If the cursor
  starts at a value \<open>c\<close> with \<open>c + N \<le> 10001\<close>, so that the reset of the cursor (to 0,
  once it exceeds 10000) does not fall inside the run, the calls return the ids
  rotated by \<open>c\<close>: each of the \<open>N\<close> credentials exactly once.
\<close>

theorem round_robin_visits_each_once:
  assumes st: "stablePool ids es s" and al: "allocated s" and len: "length es = length ids"
    and ne: "ids \<noteq> []" and d: "distinct ids"
    and cur: "currentTokenIndex s + length ids \<le> 10001"
  shows "roundRobinRun es s = map Inr (rotate (currentTokenIndex s) ids) \<and>
         distinct (roundRobinRun es s) \<and> set (roundRobinRun es s) = Inr ` set ids"
proof -
  from cur len have "currentTokenIndex s + length es \<le> 10001" by simp
  from roundRobinRun_indices [OF st al ne this] len
  have "roundRobinRun es s =
     map (\<lambda>k. Inr (ids ! ((currentTokenIndex s + k) mod length ids))) [0..<length ids]"
    by simp
  also have "\<dots> = map (\<lambda>k. Inr (rotate (currentTokenIndex s) ids ! k)) [0..<length ids]"
    by (rule map_cong) (simp_all add: nth_mod_rotate)
  also have "\<dots> = map Inr (map (\<lambda>k. rotate (currentTokenIndex s) ids ! k)
      [0..<length (rotate (currentTokenIndex s) ids)])"
    by simp
  also have "\<dots> = map Inr (rotate (currentTokenIndex s) ids)"
    by (simp only: map_nth)
  finally have eq: "roundRobinRun es s = map Inr (rotate (currentTokenIndex s) ids)" .
  from d have "distinct (map Inr (rotate (currentTokenIndex s) ids) :: (exn + string) list)"
    by (simp add: distinct_map)
  with eq show ?thesis by simp
qed

theorem round_robin_witness:
  "stablePool [''rt-A'', ''rt-B''] twoCalls rr0 \<and> allocated rr0 \<and>
   length twoCalls = length [''rt-A'', ''rt-B''] \<and> distinct [''rt-A'', ''rt-B''] \<and>
   currentTokenIndex rr0 + length [''rt-A'', ''rt-B''] \<le> 10001 \<and>
   roundRobinRun twoCalls rr0 = [Inr ''rt-A'', Inr ''rt-B'']"
proof -
  have h: "stablePool [''rt-A'', ''rt-B''] twoCalls rr0" "allocated rr0"
    "length twoCalls = length [''rt-A'', ''rt-B'']" "[''rt-A'', ''rt-B''] \<noteq> []"
    "distinct [''rt-A'', ''rt-B'']"
    "currentTokenIndex rr0 + length [''rt-A'', ''rt-B''] \<le> 10001"
    by (simp_all add: allocated_rr0 twoCalls_def rr_defs rr0_fields tokA_def tokB_def Let_def)
  from round_robin_visits_each_once [OF h] h show ?thesis
    by (simp add: rr0_fields)
qed

text \<open>
  The claim as stated fails for a starting cursor of 10000 over two credentials: the
  first call takes index \<open>10000 mod 2 = 0\<close> and resets the cursor to 0, so the second
  call returns the same credential again.
\<close>

theorem round_robin_counterexample:
  "currentTokenIndex rrWrap = 10000 \<and>
   stablePool [''rt-A'', ''rt-B''] twoCalls rrWrap \<and>
   roundRobinRun twoCalls rrWrap = [Inr ''rt-A'', Inr ''rt-A'']"
  by (simp add: rrWrap_def twoCalls_def rr_defs rr0_fields tokA_def tokB_def Let_def
      wrap_mod)


section \<open>Idle bindings are released, live ones are kept\<close>

text \<open>
  Claim C9. One run of the periodic idle sweep at time \<open>now\<close>, with the idle timeout
  of 30 minutes (1800000 ms), releases exactly the bindings whose idle age
  \<open>now - lastAccessTime\<close> exceeds the timeout: such a binding is gone afterwards, any
  other binding is unchanged, and \<^verbatim>\<open>tokenSessions\<close> holds exactly the credentials of
  the bindings that remain. So a binding that is \<open>T + \<epsilon>\<close> old (\<open>\<epsilon> > 0\<close>) is released and
  one that is \<open>T - \<epsilon>\<close> old (\<open>\<epsilon> \<ge> 0\<close>) is preserved.
\<close>

theorem idle_sweep_releases_exactly_idle:
  assumes "bindings_ok s"
  shows "map_of (sessionBindings (sessionCleanup now s)) sid =
           (case map_of (sessionBindings s) sid of
              None \<Rightarrow> None
            | Some b \<Rightarrow> if now - lastAccessTime b > 30 * 60 * 1000 then None else Some b) \<and>
         ((map_of (tokenSessions (sessionCleanup now s)) rt = Some sid) =
            (\<exists>b. map_of (sessionBindings (sessionCleanup now s)) sid = Some b \<and>
                 refreshToken' b = rt)) \<and>
         (\<forall>b eps. map_of (sessionBindings s) sid = Some b \<and> 0 < eps \<and>
            now - lastAccessTime b = 1800000 + eps \<longrightarrow>
            map_of (sessionBindings (sessionCleanup now s)) sid = None) \<and>
         (\<forall>b eps. map_of (sessionBindings s) sid = Some b \<and> 0 \<le> eps \<and>
            now - lastAccessTime b = 1800000 - eps \<longrightarrow>
            map_of (sessionBindings (sessionCleanup now s)) sid = Some b)"
proof -
  from assms have d: "distinct (map fst (sessionBindings s))" by (simp add: bindings_ok_def)
  have m: "map_of (sessionBindings (sessionCleanup now s)) sid =
           (case map_of (sessionBindings s) sid of
              None \<Rightarrow> None
            | Some b \<Rightarrow> if now - lastAccessTime b > 30 * 60 * 1000 then None else Some b)"
    unfolding sessionCleanup_bindings [OF d]
    using map_of_filter_snd [OF d, of "\<lambda>b. \<not> now - lastAccessTime b > SESSION_TIMEOUT" sid]
    by (simp add: SESSION_TIMEOUT_def split: option.splits)
  from bindings_ok_sessionCleanup [OF assms, of now]
  have inv: "inverse_maps (map_of (sessionBindings (sessionCleanup now s)))
               (map_of (tokenSessions (sessionCleanup now s)))"
    by (simp add: bindings_ok_def)
  have t: "(map_of (tokenSessions (sessionCleanup now s)) rt = Some sid) =
            (\<exists>b. map_of (sessionBindings (sessionCleanup now s)) sid = Some b \<and>
                 refreshToken' b = rt)"
    using inverse_mapsD1 [OF inv] inverse_mapsD2 [OF inv] by blast
  have r: "map_of (sessionBindings (sessionCleanup now s)) sid = None"
    if "map_of (sessionBindings s) sid = Some b" "0 < eps"
      "now - lastAccessTime b = 1800000 + eps" for b eps
    unfolding m using that by simp
  have k: "map_of (sessionBindings (sessionCleanup now s)) sid = Some b"
    if "map_of (sessionBindings s) sid = Some b" "0 \<le> eps"
      "now - lastAccessTime b = 1800000 - eps" for b eps
    unfolding m using that by simp
  from m t r k show ?thesis by blast
qed

theorem idle_sweep_witness:
  "bindings_ok pool3 \<and>
   map_of (sessionBindings pool3) ''s1''
     = Some \<lparr>tokenIndex = 0, refreshToken' = ''rt-A'', lastAccessTime = 2000000\<rparr> \<and>
   map_of (sessionBindings (sessionCleanup 3800001 pool3)) ''s1'' = None \<and>
   map_of (sessionBindings (sessionCleanup 3800000 pool3)) ''s1''
     = Some \<lparr>tokenIndex = 0, refreshToken' = ''rt-A'', lastAccessTime = 2000000\<rparr> \<and>
   map_of (sessionBindings (sessionCleanup 3800001 pool3)) ''s2''
     = Some \<lparr>tokenIndex = 1, refreshToken' = ''rt-B'', lastAccessTime = 2500000\<rparr>"
proof -
  have ok: "bindings_ok pool3" using reachable_inv [OF reachable_pool3] by simp
  show ?thesis
    using ok idle_sweep_releases_exactly_idle [OF ok, of 3800001 "''s1''"]
      idle_sweep_releases_exactly_idle [OF ok, of 3800000 "''s1''"]
      idle_sweep_releases_exactly_idle [OF ok, of 3800001 "''s2''"]
    by (simp add: pool3_fields)
qed


section \<open>Usage statistics of the round-robin variant\<close>

text \<open>
  Claim C10. In the round-robin variant \<^verbatim>\<open>getUsageStats()\<close> throws a ReferenceError
  whenever the in-memory token list is non-empty: the callback that counts the
  available tokens reads the identifier \<^verbatim>\<open>token\<close>, which nothing in its scope binds,
  on the first element. It returns a snapshot only when the list is empty.
\<close>

theorem rr_getUsageStats_throws:
  "(tokens s \<noteq> [] \<longrightarrow>
      rr_getUsageStats now s = Inl (ReferenceError ''token is not defined'')) \<and>
   (tokens s = [] \<longrightarrow>
      rr_getUsageStats now s =
        Inr \<lparr>totalTokens = 0, availableTokens' = 0,
             totalRequests = foldl (\<lambda>sum u. sum + requests u) 0 (map snd (usageStats s)),
             tokens' = []\<rparr>)"
  by (cases "tokens s") (simp_all add: rr_getUsageStats_def availableFilter_def)

theorem rr_getUsageStats_witness:
  "tokens (newRoundRobin 0 (Some [tokA, tokB])) \<noteq> [] \<and>
   rr_getUsageStats 2000000 (newRoundRobin 0 (Some [tokA, tokB]))
     = Inl (ReferenceError ''token is not defined'') \<and>
   tokens (newRoundRobin 0 None) = [] \<and>
   (\<exists>snap. rr_getUsageStats 2000000 (newRoundRobin 0 None) = Inr snap)"
  using rr_getUsageStats_throws [of "newRoundRobin 0 (Some [tokA, tokB])" 2000000]
    rr_getUsageStats_throws [of "newRoundRobin 0 None" 2000000]
  by (simp add: newRoundRobin_def loadTokens_def loadInterval_def alloc_def tokA_def tokB_def
      upt_rec)


end
